theory Spec2Isabelle
  imports Main "HOL-Library.List_Lexorder" "HOL-Library.Word"
begin

section \<open>Values: the parsed JSON request body\<close>

text \<open>
  A Python 3 \<^verbatim>\<open>str\<close> is a sequence of Unicode code points, and its comparison is
  lexicographic by code point. A string is therefore a list of code points; the order on
  lists is the lexicographic one.
\<close>

type_synonym pystr = "nat list"

definition str :: "string \<Rightarrow> pystr" where
  "str s = map of_char s"

text \<open>
  What \<^verbatim>\<open>request.json\<close> yields: \<^verbatim>\<open>None\<close>, \<^verbatim>\<open>bool\<close>, \<^verbatim>\<open>int\<close> (unbounded),
  \<^verbatim>\<open>float\<close> (an IEEE double, kept as its bit pattern: the program never inspects it),
  \<^verbatim>\<open>str\<close>, \<^verbatim>\<open>list\<close> and \<^verbatim>\<open>dict\<close>. A dict keeps its items in insertion order, so it
  is the list of its items; the keys of a Python dict are pairwise distinct.
\<close>

datatype json =
    JNull
  | JBool bool
  | JInt int
  | JFloat "64 word"
  | JStr pystr
  | JList "json list"
  | JDict "(pystr \<times> json) list"

datatype error = AssertionError | AttributeError | TypeError | KeyError | IndexError

fun is_dict :: "json \<Rightarrow> bool" where
  "is_dict (JDict kvs) = True"
| "is_dict _ = False"

text \<open>\<^verbatim>\<open>len(x)\<close>: defined on strings, lists and dicts, a TypeError elsewhere.\<close>

fun py_len :: "json \<Rightarrow> error + nat" where
  "py_len (JStr s) = Inr (length s)"
| "py_len (JList xs) = Inr (length xs)"
| "py_len (JDict kvs) = Inr (length kvs)"
| "py_len _ = Inl TypeError"

text \<open>\<^verbatim>\<open>sep.join(xs)\<close>\<close>

fun join :: "pystr \<Rightarrow> pystr list \<Rightarrow> pystr" where
  "join sep [] = []"
| "join sep [x] = x"
| "join sep (x # y # ys) = x @ sep @ join sep (y # ys)"

section \<open>QueryBuilder\<close>

record QueryBuilder =
  params :: "json list"
  current_column :: "pystr option"

definition operators :: "(pystr \<times> pystr) list" where
  "operators =
     [(str ''$gt'', str ''>''),
      (str ''$gte'', str ''>=''),
      (str ''$lt'', str ''<''),
      (str ''$lte'', str ''<=''),
      (str ''$eq'', str ''='')]"

text \<open>\<^verbatim>\<open>QueryBuilder()\<close>\<close>

definition init :: QueryBuilder where
  "init = \<lparr>params = [], current_column = None\<rparr>"

text \<open>
  \<^verbatim>\<open>op(self, op, v)\<close>: the assertion, the append to \<^verbatim>\<open>self.params\<close>, the lookup in
  \<^verbatim>\<open>operators\<close> (a KeyError on a missing key) and the formatted clause.
\<close>

definition op :: "pystr \<Rightarrow> json \<Rightarrow> QueryBuilder \<Rightarrow> error + (pystr \<times> QueryBuilder)" where
  "op k v s =
     (case current_column s of
        None \<Rightarrow> Inl AssertionError
      | Some col \<Rightarrow>
          (case map_of operators k of
             None \<Rightarrow> Inl KeyError
           | Some sql_op \<Rightarrow>
               Inr (str [CHR 0x22] @ col @ str [CHR 0x22] @ str '' '' @ sql_op @ str '' %s'',
                    s\<lparr>params := params s @ [v]\<rparr>)))"

text \<open>
  \<^verbatim>\<open>build\<close> loops over \<^verbatim>\<open>where.items()\<close> (an AttributeError when \<^verbatim>\<open>where\<close> is not a
  dict); \<open>build_items\<close> is that loop, with the list \<^verbatim>\<open>query\<close> built so far.
  \<^verbatim>\<open>group\<close> calls \<^verbatim>\<open>build\<close> and joins.
\<close>

function build :: "json \<Rightarrow> QueryBuilder \<Rightarrow> error + (pystr list \<times> QueryBuilder)"
  and build_items ::
    "(pystr \<times> json) list \<Rightarrow> pystr list \<Rightarrow> QueryBuilder \<Rightarrow> error + (pystr list \<times> QueryBuilder)"
  and group :: "json \<Rightarrow> pystr \<Rightarrow> QueryBuilder \<Rightarrow> error + (pystr \<times> QueryBuilder)"
where
  "build w s = (case w of JDict kvs \<Rightarrow> build_items kvs [] s | _ \<Rightarrow> Inl AttributeError)"
| "build_items [] query s = Inr (query, s)"
| "build_items ((k, v) # rest) query s =
     (if k = str ''$and'' then
        (case group v (str ''AND'') s of
           Inl e \<Rightarrow> Inl e
         | Inr (g, s') \<Rightarrow> build_items rest (query @ [g]) s')
      else if k = str ''$or'' then
        (case group v (str ''OR'') s of
           Inl e \<Rightarrow> Inl e
         | Inr (g, s') \<Rightarrow> build_items rest (query @ [g]) s')
      else if k \<in> fst ` set operators then
        (case op k v s of
           Inl e \<Rightarrow> Inl e
         | Inr (c, s') \<Rightarrow> build_items rest (query @ [c]) s')
      else if is_dict v then
        (if current_column s \<noteq> None then Inl AssertionError
         else
           (case group v (str ''AND'') (s\<lparr>current_column := Some k\<rparr>) of
              Inl e \<Rightarrow> Inl e
            | Inr (g, s') \<Rightarrow>
                build_items rest (query @ [g]) (s'\<lparr>current_column := current_column s\<rparr>)))
      else build_items rest (query @ [k @ str ''=%s'']) (s\<lparr>params := params s @ [v]\<rparr>))"
| "group v action s =
     (case build v s of
        Inl e \<Rightarrow> Inl e
      | Inr (q, s') \<Rightarrow> Inr (join (str '' '' @ action @ str '' '') q, s'))"
  by pat_completeness auto

termination
  by (relation "measure (\<lambda>x. case x of
         Inl (w, s) \<Rightarrow> 2 * size w
       | Inr (Inl (kvs, q, s)) \<Rightarrow> 2 * size_list (size_prod (\<lambda>_. 0) size) kvs
       | Inr (Inr (v, a, s)) \<Rightarrow> 2 * size v + 1)") auto

text \<open>
  \<^verbatim>\<open>build_query\<close>; the returned dict \<^verbatim>\<open>{'query': q, 'params': ps}\<close> is the pair
  \<open>(q, ps)\<close>.
\<close>

definition build_query :: "json \<Rightarrow> error + (pystr \<times> json list)" where
  "build_query w =
     (if w = JNull then Inr ([], [])
      else
        (case py_len w of
           Inl e \<Rightarrow> Inl e
         | Inr n \<Rightarrow>
             if n = 0 then Inr ([], [])
             else
               (case group w (str ''AND'') init of
                  Inl e \<Rightarrow> Inl e
                | Inr (q, s) \<Rightarrow> Inr (q, params s))))"

section \<open>check_valid_sql_ident\<close>

text \<open>
  \<^verbatim>\<open>c.isalnum()\<close> on one character of a Python 3 string asks the Unicode database
  (alphabetic, decimal, digit or numeric). Below 128 these are the ASCII letters and
  digits. From 128 to 255 (Latin-1 Supplement) they are the letters
  \<^verbatim>\<open>U+00AA U+00B5 U+00BA U+00C0-U+00D6 U+00D8-U+00F6 U+00F8-U+00FF\<close>, the superscript
  digits \<^verbatim>\<open>U+00B2 U+00B3 U+00B9\<close> and the fractions \<^verbatim>\<open>U+00BC-U+00BE\<close>. From 256 on the
  database is the parameter \<open>U\<close>.
\<close>

definition ascii_alnum :: "nat \<Rightarrow> bool" where
  "ascii_alnum c \<longleftrightarrow> (48 \<le> c \<and> c \<le> 57) \<or> (65 \<le> c \<and> c \<le> 90) \<or> (97 \<le> c \<and> c \<le> 122)"

definition latin1_alnum :: "nat \<Rightarrow> bool" where
  "latin1_alnum c \<longleftrightarrow>
     c = 170 \<or> c = 178 \<or> c = 179 \<or> c = 181 \<or> c = 185 \<or> c = 186 \<or>
     (188 \<le> c \<and> c \<le> 190) \<or> (192 \<le> c \<and> c \<le> 214) \<or> (216 \<le> c \<and> c \<le> 246) \<or>
     (248 \<le> c \<and> c \<le> 255)"

definition isalnum :: "(nat \<Rightarrow> bool) \<Rightarrow> nat \<Rightarrow> bool" where
  "isalnum U c = (if c < 128 then ascii_alnum c else if c < 256 then latin1_alnum c else U c)"

text \<open>\<^verbatim>\<open>ident[0]\<close>: an IndexError on the empty string.\<close>

fun first_char :: "pystr \<Rightarrow> error + nat" where
  "first_char [] = Inl IndexError"
| "first_char (c # cs) = Inr c"

text \<open>The loop \<^verbatim>\<open>for c in ident\<close> of \<^verbatim>\<open>check_valid_sql_ident\<close>.\<close>

fun check_chars :: "(nat \<Rightarrow> bool) \<Rightarrow> pystr \<Rightarrow> bool" where
  "check_chars U [] = True"
| "check_chars U (c # cs) =
     (if \<not> (isalnum U c \<or> c \<in> set (str ''_$'')) then False else check_chars U cs)"

definition check_valid_sql_ident :: "(nat \<Rightarrow> bool) \<Rightarrow> json \<Rightarrow> error + bool" where
  "check_valid_sql_ident U ident =
     (case ident of
        JStr s \<Rightarrow>
          if length s = 0 then Inr False
          else
            (case first_char s of
               Inl e \<Rightarrow> Inl e
             | Inr c \<Rightarrow> if \<not> isalnum U c then Inr False else Inr (check_chars U s))
      | _ \<Rightarrow> Inr False)"

section \<open>InsertBuilder\<close>

text \<open>The field \<^verbatim>\<open>params\<close> of the InsertBuilder is \<open>params_ins\<close> here.\<close>

record InsertBuilder =
  params_ins :: "json list"
  value_strs :: "pystr list"
  first_item :: "(pystr \<times> json) list option"

text \<open>\<^verbatim>\<open>InsertBuilder()\<close>\<close>

definition init_ins :: InsertBuilder where
  "init_ins = \<lparr>params_ins = [], value_strs = [], first_item = None\<rparr>"

text \<open>
  \<^verbatim>\<open>add\<close>: \<^verbatim>\<open>values.items()\<close> is an AttributeError unless \<^verbatim>\<open>values\<close> is a dict.
  \<^verbatim>\<open>sorted\<close> compares the (key, value) tuples; the keys of a dict differ, so the
  comparison is decided by the keys.
\<close>

definition add :: "json \<Rightarrow> InsertBuilder \<Rightarrow> error + InsertBuilder" where
  "add vals b =
     (case vals of
        JDict kvs \<Rightarrow>
          (let items = sort_key fst kvs;
               b1 = (if first_item b = None then b\<lparr>first_item := Some items\<rparr> else b)
           in Inr (b1\<lparr>params_ins := params_ins b1 @ map snd items,
                      value_strs := value_strs b1 @
                        [str ''('' @ join (str '','') (map (\<lambda>x. str ''%s'') kvs) @ str '')'']\<rparr>))
      | _ \<Rightarrow> Inl AttributeError)"

text \<open>\<^verbatim>\<open>names\<close>: mapping over \<^verbatim>\<open>None\<close> is a TypeError.\<close>

definition names :: "InsertBuilder \<Rightarrow> error + pystr" where
  "names b =
     (case first_item b of
        None \<Rightarrow> Inl TypeError
      | Some items \<Rightarrow>
          Inr (join (str '','') (map (\<lambda>x. str ''\"'' @ fst x @ str ''\"'') items)))"

text \<open>\<^verbatim>\<open>values\<close>\<close>

definition values_ins :: "InsertBuilder \<Rightarrow> pystr" where
  "values_ins b = join (str '','') (value_strs b)"

text \<open>The loop \<^verbatim>\<open>for e in values: builder.add(e)\<close> of \<^verbatim>\<open>insert\<close>.\<close>

fun add_all :: "json list \<Rightarrow> InsertBuilder \<Rightarrow> error + InsertBuilder" where
  "add_all [] b = Inr b"
| "add_all (e # es) b = (case add e b of Inl err \<Rightarrow> Inl err | Inr b' \<Rightarrow> add_all es b')"

section \<open>The request handlers\<close>

text \<open>
  \<^verbatim>\<open>req[key]\<close> (a KeyError on a missing key, a TypeError when \<^verbatim>\<open>req\<close> is not a dict)
  and \<^verbatim>\<open>req.get(key, default)\<close>, which the handlers reach only after \<^verbatim>\<open>req['table']\<close>
  has returned, hence on a dict.
\<close>

fun getitem :: "json \<Rightarrow> pystr \<Rightarrow> error + json" where
  "getitem (JDict kvs) k = (case map_of kvs k of None \<Rightarrow> Inl KeyError | Some v \<Rightarrow> Inr v)"
| "getitem _ k = Inl TypeError"

fun get_default :: "json \<Rightarrow> pystr \<Rightarrow> json \<Rightarrow> error + json" where
  "get_default (JDict kvs) k d = (case map_of kvs k of None \<Rightarrow> Inr d | Some v \<Rightarrow> Inr v)"
| "get_default _ k d = Inl AttributeError"

text \<open>
  A value interpolated into an f-string: a \<^verbatim>\<open>str\<close> is itself, any other value is what
  Python's \<^verbatim>\<open>str()\<close> makes of it, the parameter \<open>F\<close>.
\<close>

fun format :: "(json \<Rightarrow> pystr) \<Rightarrow> json \<Rightarrow> pystr" where
  "format F (JStr s) = s"
| "format F v = F v"

text \<open>
  Each handler is modelled up to its call of \<^verbatim>\<open>cur.execute\<close>: the result is the
  statement and the parameter list passed there.
\<close>

definition insert_sql :: "(json \<Rightarrow> pystr) \<Rightarrow> json \<Rightarrow> error + (pystr \<times> json list)" where
  "insert_sql F req =
     (case getitem req (str ''table'') of
        Inl e \<Rightarrow> Inl e
      | Inr table \<Rightarrow>
     (case getitem req (str ''values'') of
        Inl e \<Rightarrow> Inl e
      | Inr vals \<Rightarrow>
     (case (case vals of JList es \<Rightarrow> add_all es init_ins | _ \<Rightarrow> add vals init_ins) of
        Inl e \<Rightarrow> Inl e
      | Inr b \<Rightarrow>
     (case names b of
        Inl e \<Rightarrow> Inl e
      | Inr ns \<Rightarrow>
          Inr (str ''INSERT INTO '' @ format F table @ str '' ('' @ ns @ str '') '' @
               str ''VALUES '' @ values_ins b @ str '' RETURNING *'',
               params_ins b)))))"

definition delete_sql :: "(json \<Rightarrow> pystr) \<Rightarrow> json \<Rightarrow> error + (pystr \<times> json list)" where
  "delete_sql F req =
     (case getitem req (str ''table'') of
        Inl e \<Rightarrow> Inl e
      | Inr table \<Rightarrow>
     (case get_default req (str ''where'') JNull of
        Inl e \<Rightarrow> Inl e
      | Inr w \<Rightarrow>
     (case build_query w of
        Inl e \<Rightarrow> Inl e
      | Inr (q, ps) \<Rightarrow>
          (let where_str = (if length ps > 0 then str ''WHERE ('' @ q @ str '') '' else [])
           in Inr (str ''DELETE FROM '' @ format F table @ str '' '' @ where_str @
                   str '' RETURNING *'',
                   ps)))))"

text \<open>
  The part of \<^verbatim>\<open>select\<close> that turns \<^verbatim>\<open>columns\<close> into the column list of the
  statement: \<open>assert_columns\<close> is the loop asserting that every column is a valid
  identifier, \<open>select_columns\<close> the whole \<^verbatim>\<open>if columns is None ... else\<close>.
\<close>

fun assert_columns :: "(nat \<Rightarrow> bool) \<Rightarrow> json list \<Rightarrow> error + unit" where
  "assert_columns U [] = Inr ()"
| "assert_columns U (c # cs) =
     (case check_valid_sql_ident U c of
        Inl e \<Rightarrow> Inl e
      | Inr ok \<Rightarrow> if \<not> ok then Inl AssertionError else assert_columns U cs)"

definition select_columns :: "(nat \<Rightarrow> bool) \<Rightarrow> (json \<Rightarrow> pystr) \<Rightarrow> json \<Rightarrow> error + pystr" where
  "select_columns U F columns =
     (if columns = JNull then Inr (str ''*'')
      else
        (case columns of
           JList cs \<Rightarrow>
             (case assert_columns U cs of
                Inl e \<Rightarrow> Inl e
              | Inr _ \<Rightarrow>
                  Inr (join (str '','') (map (\<lambda>col. str ''\"'' @ format F col @ str ''\"'') cs)))
         | _ \<Rightarrow> Inl AssertionError))"

definition select_sql ::
  "(nat \<Rightarrow> bool) \<Rightarrow> (json \<Rightarrow> pystr) \<Rightarrow> json \<Rightarrow> error + (pystr \<times> json list)" where
  "select_sql U F req =
     (case getitem req (str ''table'') of
        Inl e \<Rightarrow> Inl e
      | Inr table \<Rightarrow>
     (case get_default req (str ''where'') JNull of
        Inl e \<Rightarrow> Inl e
      | Inr w \<Rightarrow>
     (case get_default req (str ''columns'') JNull of
        Inl e \<Rightarrow> Inl e
      | Inr columns \<Rightarrow>
     (case select_columns U F columns of
        Inl e \<Rightarrow> Inl e
      | Inr cols \<Rightarrow>
     (case build_query w of
        Inl e \<Rightarrow> Inl e
      | Inr (q, ps) \<Rightarrow>
          (let sql = str ''SELECT '' @ cols @ str '' FROM '' @ format F table;
               sql' = (if length ps > 0 then sql @ str '' WHERE ('' @ q @ str '')'' else sql)
           in Inr (sql', ps)))))))"

definition update_sql :: "(json \<Rightarrow> pystr) \<Rightarrow> json \<Rightarrow> error + (pystr \<times> json list)" where
  "update_sql F req =
     (case getitem req (str ''table'') of
        Inl e \<Rightarrow> Inl e
      | Inr table \<Rightarrow>
     (case get_default req (str ''where'') (JDict []) of
        Inl e \<Rightarrow> Inl e
      | Inr w \<Rightarrow>
     (case getitem req (str ''values'') of
        Inl e \<Rightarrow> Inl e
      | Inr vals \<Rightarrow>
     (case vals of
        JDict kvs \<Rightarrow>
          (let vs = sort_key fst kvs;
               update_params = map snd vs;
               update_str =
                 join (str '','') (map (\<lambda>x. str ''\"'' @ fst x @ str ''\" = %s'') vs)
           in
             (case build_query w of
                Inl e \<Rightarrow> Inl e
              | Inr (q, ps) \<Rightarrow>
                  (let where_str =
                         (if length q > 0 then str ''WHERE ('' @ q @ str '') '' else [])
                   in Inr (str ''UPDATE '' @ format F table @ str '' SET '' @ update_str @
                           str '' '' @ where_str @ str ''RETURNING *'',
                           update_params @ ps))))
      | _ \<Rightarrow> Inl AttributeError))))"

section \<open>Notions used to state the properties\<close>

subsection \<open>One turn of the loop of build\<close>

text \<open>
  What one turn of the loop of \<^verbatim>\<open>build\<close> does with the item \<open>(k, v)\<close>: the fragment it
  appends to \<^verbatim>\<open>query\<close> and the builder it leaves (\<open>build_items_step\<close> below).
\<close>

definition entry :: "pystr \<Rightarrow> json \<Rightarrow> QueryBuilder \<Rightarrow> error + (pystr \<times> QueryBuilder)" where
  "entry k v s =
     (if k = str ''$and'' then group v (str ''AND'') s
      else if k = str ''$or'' then group v (str ''OR'') s
      else if k \<in> fst ` set operators then op k v s
      else if is_dict v then
        (if current_column s \<noteq> None then Inl AssertionError
         else
           (case group v (str ''AND'') (s\<lparr>current_column := Some k\<rparr>) of
              Inl e \<Rightarrow> Inl e
            | Inr (g, s') \<Rightarrow> Inr (g, s'\<lparr>current_column := current_column s\<rparr>)))
      else Inr (k @ str ''=%s'', s\<lparr>params := params s @ [v]\<rparr>))"

subsection \<open>The keys a traversal meets\<close>

text \<open>
  The traversal of a filter, without the builder: every key met, in the order of the
  traversal, with its value and the column context active when it is met. A
  \<^verbatim>\<open>$and\<close>/\<^verbatim>\<open>$or\<close> key is followed by the keys of its object in the same context, a
  key that is not an operator and has an object as value by the keys of that object in
  the context of the key itself.
\<close>

function encounters :: "json \<Rightarrow> pystr option \<Rightarrow> (pystr \<times> json \<times> pystr option) list"
  and encounters_items ::
    "(pystr \<times> json) list \<Rightarrow> pystr option \<Rightarrow> (pystr \<times> json \<times> pystr option) list"
where
  "encounters w cc = (case w of JDict kvs \<Rightarrow> encounters_items kvs cc | _ \<Rightarrow> [])"
| "encounters_items [] cc = []"
| "encounters_items ((k, v) # rest) cc =
     (k, v, cc) #
     (if k = str ''$and'' \<or> k = str ''$or'' then encounters v cc
      else if k \<in> fst ` set operators then []
      else if is_dict v then encounters v (Some k)
      else []) @
     encounters_items rest cc"
  by pat_completeness auto

termination
  by (relation "measure (\<lambda>x. case x of
         Inl (w, cc) \<Rightarrow> 2 * size w
       | Inr (kvs, cc) \<Rightarrow> 2 * size_list (size_prod (\<lambda>_. 0) size) kvs)") auto

text \<open>
  The two contract violations, and the one other way a traversal can fail: a
  \<^verbatim>\<open>$and\<close>/\<^verbatim>\<open>$or\<close> key whose value is not an object.
\<close>

fun op_without_column :: "pystr \<times> json \<times> pystr option \<Rightarrow> bool" where
  "op_without_column (k, v, cc) \<longleftrightarrow> k \<in> fst ` set operators \<and> cc = None"

fun nested_column :: "pystr \<times> json \<times> pystr option \<Rightarrow> bool" where
  "nested_column (k, v, cc) \<longleftrightarrow>
     k \<noteq> str ''$and'' \<and> k \<noteq> str ''$or'' \<and> k \<notin> fst ` set operators \<and> is_dict v \<and> cc \<noteq> None"

fun group_not_object :: "pystr \<times> json \<times> pystr option \<Rightarrow> bool" where
  "group_not_object (k, v, cc) \<longleftrightarrow> (k = str ''$and'' \<or> k = str ''$or'') \<and> \<not> is_dict v"

definition fault_of :: "pystr \<times> json \<times> pystr option \<Rightarrow> error option" where
  "fault_of t =
     (if group_not_object t then Some AttributeError
      else if op_without_column t \<or> nested_column t then Some AssertionError
      else None)"

fun first_fault :: "(pystr \<times> json \<times> pystr option) list \<Rightarrow> error option" where
  "first_fault [] = None"
| "first_fault (t # ts) = (case fault_of t of Some e \<Rightarrow> Some e | None \<Rightarrow> first_fault ts)"

subsection \<open>Placeholders\<close>

text \<open>The number of occurrences of \<^verbatim>\<open>%s\<close> in a text (\<^verbatim>\<open>%\<close> is 37, \<^verbatim>\<open>s\<close> is 115).\<close>

fun count_ph :: "pystr \<Rightarrow> nat" where
  "count_ph (a # b # cs) =
     (if a = 37 \<and> b = 115 then Suc (count_ph cs) else count_ph (b # cs))"
| "count_ph [a] = 0"
| "count_ph [] = 0"

text \<open>
  Positional substitution: the i-th \<^verbatim>\<open>%s\<close> of the text is replaced by the i-th of the
  given texts; a substituted text is not scanned again.
\<close>

fun fill :: "pystr \<Rightarrow> pystr list \<Rightarrow> pystr" where
  "fill (a # b # cs) ps =
     (if a = 37 \<and> b = 115
      then (case ps of [] \<Rightarrow> a # b # fill cs [] | p # ps' \<Rightarrow> p @ fill cs ps')
      else a # fill (b # cs) ps)"
| "fill [a] ps = [a]"
| "fill [] ps = []"

text \<open>
  The clauses of a filter with every value written in place by \<open>r\<close>, instead of a
  placeholder: what the compiled text has to read once its parameters are substituted.
  One text per key, as \<^verbatim>\<open>build\<close> returns one fragment per key.
\<close>

function render :: "(json \<Rightarrow> pystr) \<Rightarrow> json \<Rightarrow> pystr option \<Rightarrow> pystr list"
  and render_items :: "(json \<Rightarrow> pystr) \<Rightarrow> (pystr \<times> json) list \<Rightarrow> pystr option \<Rightarrow> pystr list"
where
  "render r w cc = (case w of JDict kvs \<Rightarrow> render_items r kvs cc | _ \<Rightarrow> [])"
| "render_items r [] cc = []"
| "render_items r ((k, v) # rest) cc =
     (if k = str ''$and'' then join (str '' AND '') (render r v cc)
      else if k = str ''$or'' then join (str '' OR '') (render r v cc)
      else if k \<in> fst ` set operators then
        str ''\"'' @ (case cc of None \<Rightarrow> [] | Some col \<Rightarrow> col) @ str ''\" '' @
        (case map_of operators k of None \<Rightarrow> [] | Some sql_op \<Rightarrow> sql_op) @ str '' '' @ r v
      else if is_dict v then join (str '' AND '') (render r v (Some k))
      else k @ str ''='' @ r v) #
     render_items r rest cc"
  by pat_completeness auto

termination
  by (relation "measure (\<lambda>x. case x of
         Inl (r, w, cc) \<Rightarrow> 2 * size w
       | Inr (r, kvs, cc) \<Rightarrow> 2 * size_list (size_prod (\<lambda>_. 0) size) kvs)") auto

text \<open>
  A fragment \<open>f\<close> is aligned with the parameters \<open>ps\<close> and the text \<open>t\<close> when, whatever
  follows it (not starting with \<^verbatim>\<open>s\<close>), its placeholders are exactly as many as \<open>ps\<close>
  and substituting \<open>ps\<close> in order turns \<open>f\<close> into \<open>t\<close>.
\<close>

definition aligned :: "(json \<Rightarrow> pystr) \<Rightarrow> pystr \<Rightarrow> json list \<Rightarrow> pystr \<Rightarrow> bool" where
  "aligned r f ps t \<longleftrightarrow>
     (\<forall>ys qs. (ys = [] \<or> hd ys \<noteq> 115) \<longrightarrow>
        fill (f @ ys) (map r ps @ qs) = t @ fill ys qs \<and>
        count_ph (f @ ys) = length ps + count_ph ys)"

fun aligned_list :: "(json \<Rightarrow> pystr) \<Rightarrow> pystr list \<Rightarrow> json list \<Rightarrow> pystr list \<Rightarrow> bool" where
  "aligned_list r [] ps ts \<longleftrightarrow> ps = [] \<and> ts = []"
| "aligned_list r (f # fs) ps ts \<longleftrightarrow>
     (\<exists>p1 p2 t ts'. ps = p1 @ p2 \<and> ts = t # ts' \<and> aligned r f p1 t \<and> aligned_list r fs p2 ts')"

section \<open>Auxiliary facts\<close>

lemmas ident_defs =
  check_valid_sql_ident_def isalnum_def ascii_alnum_def latin1_alnum_def str_def

lemmas qb_defs = build_query_def str_def init_def op_def operators_def

lemma bind_Inr_iff:
  "((case m of Inl e \<Rightarrow> Inl e | Inr x \<Rightarrow> f x) = Inr y) = (\<exists>x. m = Inr x \<and> f x = Inr y)"
  by (cases m) simp_all

lemma bind_Inl_iff:
  "((case m of Inl e \<Rightarrow> Inl e | Inr x \<Rightarrow> f x) = Inl e') =
     (m = Inl e' \<or> (\<exists>x. m = Inr x \<and> f x = Inl e'))"
  by (cases m) auto

lemma op_Inr_iff:
  "(op k v s = Inr (c, s')) =
     (\<exists>col sql_op. current_column s = Some col \<and> map_of operators k = Some sql_op \<and>
        c = str [CHR 0x22] @ col @ str [CHR 0x22] @ str '' '' @ sql_op @ str '' %s'' \<and>
        s' = s\<lparr>params := params s @ [v]\<rparr>)"
  by (auto simp: op_def split: option.splits)

subsection \<open>The column context across a call of build\<close>

lemma build_keeps_column:
  "build w s = Inr (q, s') \<Longrightarrow> current_column s' = current_column s"
  "build_items kvs query s = Inr (q, s') \<Longrightarrow> current_column s' = current_column s"
  "group v a s = Inr (g, s') \<Longrightarrow> current_column s' = current_column s"
proof (induction w s and kvs query s and v a s arbitrary: q s' and q s' and g s'
    rule: build_build_items_group.induct)
  case (1 w s)
  then show ?case by (cases w) simp_all
next
  case (2 query s)
  then show ?case by simp
next
  case (3 k v rest query s)
  note run = \<open>build_items ((k, v) # rest) query s = Inr (q, s')\<close>
  show ?case
  proof (cases "k = str ''$and''")
    case True
    with run obtain g s1 where g: "group v (str ''AND'') s = Inr (g, s1)"
      and r: "build_items rest (query @ [g]) s1 = Inr (q, s')"
      by (auto simp: bind_Inr_iff)
    from "3.IH"(1)[OF True g] "3.IH"(2)[OF True g refl r] show ?thesis by simp
  next
    case nand: False
    show ?thesis
    proof (cases "k = str ''$or''")
      case True
      with run nand obtain g s1 where g: "group v (str ''OR'') s = Inr (g, s1)"
        and r: "build_items rest (query @ [g]) s1 = Inr (q, s')"
        by (auto simp: bind_Inr_iff)
      from "3.IH"(3)[OF nand True g] "3.IH"(4)[OF nand True g refl r] show ?thesis by simp
    next
      case nor: False
      show ?thesis
      proof (cases "k \<in> fst ` set operators")
        case True
        with run nand nor obtain c s1 where c: "op k v s = Inr (c, s1)"
          and r: "build_items rest (query @ [c]) s1 = Inr (q, s')"
          by (auto simp: bind_Inr_iff)
        from c have "current_column s1 = current_column s" by (auto simp: op_Inr_iff)
        with "3.IH"(5)[OF nand nor True c refl r] show ?thesis by simp
      next
        case nop: False
        show ?thesis
        proof (cases "is_dict v")
          case True
          with run nand nor nop have cc: "\<not> current_column s \<noteq> None"
            by (auto split: if_splits)
          with run nand nor nop True obtain g s1 where
            g: "group v (str ''AND'') (s\<lparr>current_column := Some k\<rparr>) = Inr (g, s1)"
            and r: "build_items rest (query @ [g]) (s1\<lparr>current_column := current_column s\<rparr>)
                      = Inr (q, s')"
            by (auto simp: bind_Inr_iff)
          from "3.IH"(7)[OF nand nor nop True cc g refl r] show ?thesis by simp
        next
          case False
          with run nand nor nop have
            r: "build_items rest (query @ [k @ str ''=%s'']) (s\<lparr>params := params s @ [v]\<rparr>)
                  = Inr (q, s')"
            by simp
          from "3.IH"(8)[OF nand nor nop False r] show ?thesis by simp
        qed
      qed
    qed
  qed
next
  case (4 v action s)
  then show ?case by (auto simp: bind_Inr_iff)
qed

subsection \<open>InsertBuilder on a sequence of rows\<close>

lemma map_insort_key: "map f (insort_key f x xs) = insort (f x) (map f xs)"
  by (induction xs) simp_all

lemma map_fst_sort_key: "map fst (sort_key fst xs) = sort (map fst xs)"
  by (induction xs) (simp_all add: map_insort_key)

lemma add_dict:
  "add (JDict r) b =
     Inr ((if first_item b = None then b\<lparr>first_item := Some (sort_key fst r)\<rparr> else b)
       \<lparr>params_ins := params_ins b @ map snd (sort_key fst r),
        value_strs := value_strs b @
          [str ''('' @ join (str '','') (replicate (length r) (str ''%s'')) @ str '')'']\<rparr>)"
  by (simp add: add_def Let_def map_replicate_const)

lemma add_all_dicts:
  "first_item b \<noteq> None \<Longrightarrow>
   add_all (map JDict rows) b =
     Inr (b\<lparr>params_ins := params_ins b @ concat (map (\<lambda>row. map snd (sort_key fst row)) rows),
            value_strs := value_strs b @
              map (\<lambda>row. str ''('' @ join (str '','') (replicate (length row) (str ''%s'')) @
                          str '')'') rows\<rparr>)"
proof (induction rows arbitrary: b)
  case Nil
  then show ?case by simp
next
  case (Cons r rows)
  then show ?case by (simp add: add_dict)
qed

subsection \<open>The loop of build, item by item\<close>

lemma build_items_step:
  "build_items ((k, v) # rest) query s =
     (case entry k v s of Inl e \<Rightarrow> Inl e | Inr (f, s1) \<Rightarrow> build_items rest (query @ [f]) s1)"
  by (simp add: entry_def split: sum.splits prod.splits)

lemma build_items_acc:
  "build_items kvs query s =
     (case build_items kvs [] s of Inl e \<Rightarrow> Inl e | Inr (q, s') \<Rightarrow> Inr (query @ q, s'))"
proof (induction kvs arbitrary: query s)
  case Nil
  then show ?case by simp
next
  case (Cons kv rest)
  obtain k v where kv: "kv = (k, v)" by (cases kv)
  show ?case
  proof (cases "entry k v s")
    case (Inl e)
    then show ?thesis by (simp only: kv build_items_step sum.case)
  next
    case (Inr x)
    obtain f s1 where x: "x = (f, s1)" by (cases x)
    have 1: "build_items rest (query @ [f]) s1 =
      (case build_items rest [] s1 of Inl e \<Rightarrow> Inl e | Inr (q, s') \<Rightarrow> Inr (query @ f # q, s'))"
      by (subst Cons.IH) (simp split: sum.splits)
    have 2: "build_items rest ([] @ [f]) s1 =
      (case build_items rest [] s1 of Inl e \<Rightarrow> Inl e | Inr (q, s') \<Rightarrow> Inr (f # q, s'))"
      by (subst Cons.IH) (simp split: sum.splits)
    show ?thesis
      by (simp only: kv build_items_step Inr x sum.case prod.case 1 2)
         (simp split: sum.splits)
  qed
qed

lemma build_Cons:
  "build (JDict (kv # kvs)) s =
     (case build (JDict [kv]) s of
        Inl e \<Rightarrow> Inl e
      | Inr (f, s1) \<Rightarrow>
          (case build (JDict kvs) s1 of Inl e \<Rightarrow> Inl e | Inr (fs, s2) \<Rightarrow> Inr (f @ fs, s2)))"
proof -
  obtain k v where kv: "kv = (k, v)" by (cases kv)
  show ?thesis
  proof (cases "entry k v s")
    case (Inl e)
    then show ?thesis by (simp add: kv build_items_step del: build_items.simps(2))
  next
    case (Inr x)
    obtain f s1 where x: "x = (f, s1)" by (cases x)
    show ?thesis
      by (simp add: kv build_items_step Inr x build_items_acc[of kvs "[f]"] del: build_items.simps(2))
  qed
qed

lemma build_items_length:
  "build_items kvs query s = Inr (q, s') \<Longrightarrow> length q = length query + length kvs"
proof (induction kvs arbitrary: query s)
  case Nil
  then show ?case by simp
next
  case (Cons kv rest)
  obtain k v where kv: "kv = (k, v)" by (cases kv)
  from Cons.prems obtain f s1 where "build_items rest (query @ [f]) s1 = Inr (q, s')"
    unfolding kv build_items_step by (auto simp: bind_Inr_iff)
  from Cons.IH[OF this] show ?case by simp
qed

subsection \<open>The first fault of a traversal\<close>

lemma logical_not_operator:
  "str ''$and'' \<notin> fst ` set operators" "str ''$or'' \<notin> fst ` set operators"
  by (simp_all add: operators_def str_def)

lemma logical_not_operator':
  "(str ''$and'', x) \<notin> set operators" "(str ''$or'', x) \<notin> set operators"
  by (simp_all add: operators_def str_def)

lemma operator_lookup: "k \<in> fst ` set operators \<Longrightarrow> \<exists>sql_op. map_of operators k = Some sql_op"
  by (cases "map_of operators k") (simp_all add: map_of_eq_None_iff)

lemma op_Inl_iff:
  "k \<in> fst ` set operators \<Longrightarrow> (op k v s = Inl e) = (current_column s = None \<and> e = AssertionError)"
  by (auto simp: op_def dest!: operator_lookup split: option.splits)

lemma first_fault_append:
  "first_fault (xs @ ys) = (case first_fault xs of Some e \<Rightarrow> Some e | None \<Rightarrow> first_fault ys)"
  by (induction xs) (simp_all split: option.splits)

lemma fault_of_assertion:
  "(fault_of t = Some AssertionError) = (op_without_column t \<or> nested_column t)"
  by (cases t) (auto simp: fault_of_def logical_not_operator')

lemma fault_of_None:
  "(fault_of t = None) = (\<not> op_without_column t \<and> \<not> nested_column t \<and> \<not> group_not_object t)"
  by (cases t) (auto simp: fault_of_def)

lemma first_fault_split:
  "(first_fault ts = Some e) =
     (\<exists>xs t ys. ts = xs @ t # ys \<and> (\<forall>x\<in>set xs. fault_of x = None) \<and> fault_of t = Some e)"
proof (induction ts)
  case Nil
  then show ?case by simp
next
  case (Cons a ts)
  show ?case
  proof (cases "fault_of a")
    case None
    have "(\<exists>xs t ys. a # ts = xs @ t # ys \<and> (\<forall>x\<in>set xs. fault_of x = None) \<and> fault_of t = Some e)
      = (\<exists>xs t ys. ts = xs @ t # ys \<and> (\<forall>x\<in>set xs. fault_of x = None) \<and> fault_of t = Some e)"
      (is "?L = ?R")
    proof
      assume ?L
      then obtain xs t ys where h: "a # ts = xs @ t # ys" "\<forall>x\<in>set xs. fault_of x = None" "fault_of t = Some e"
        by blast
      with None obtain xs' where "xs = a # xs'" by (cases xs) auto
      with h have "ts = xs' @ t # ys \<and> (\<forall>x\<in>set xs'. fault_of x = None) \<and> fault_of t = Some e"
        by simp
      then show ?R by blast
    next
      assume ?R
      then obtain xs t ys where h: "ts = xs @ t # ys" "\<forall>x\<in>set xs. fault_of x = None" "fault_of t = Some e"
        by blast
      then have "a # ts = (a # xs) @ t # ys \<and> (\<forall>x\<in>set (a # xs). fault_of x = None) \<and> fault_of t = Some e"
        using None by simp
      then show ?L by blast
    qed
    with None Cons show ?thesis by simp
  next
    case (Some e')
    have "(\<exists>xs t ys. a # ts = xs @ t # ys \<and> (\<forall>x\<in>set xs. fault_of x = None) \<and> fault_of t = Some e)
      = (e' = e)" (is "?L = ?R")
    proof
      assume ?L
      then obtain xs t ys where h: "a # ts = xs @ t # ys" "\<forall>x\<in>set xs. fault_of x = None" "fault_of t = Some e"
        by blast
      with Some show ?R by (cases xs) auto
    next
      assume ?R
      with Some have "a # ts = [] @ a # ts \<and> (\<forall>x\<in>set []. fault_of x = None) \<and> fault_of a = Some e"
        by simp
      then show ?L by blast
    qed
    with Some show ?thesis by simp
  qed
qed

lemma fault_of_logical:
  "k = str ''$and'' \<or> k = str ''$or'' \<Longrightarrow>
   fault_of (k, v, cc) = (if is_dict v then None else Some AttributeError)"
  by (auto simp: fault_of_def logical_not_operator')

lemma fault_of_operator:
  "k \<in> fst ` set operators \<Longrightarrow>
   fault_of (k, v, cc) = (if cc = None then Some AssertionError else None)"
  by (auto simp: fault_of_def logical_not_operator')

lemma fault_of_plain:
  "k \<noteq> str ''$and'' \<Longrightarrow> k \<noteq> str ''$or'' \<Longrightarrow> k \<notin> fst ` set operators \<Longrightarrow>
   fault_of (k, v, cc) = (if is_dict v \<and> cc \<noteq> None then Some AssertionError else None)"
  by (auto simp: fault_of_def)

lemma encounters_not_dict: "\<not> is_dict w \<Longrightarrow> encounters w cc = []"
  by (cases w) simp_all

lemma group_step:
  assumes IHg: "\<And>e. (group v a s = Inl e) =
       (if is_dict v then first_fault (encounters v (current_column s)) = Some e
        else e = AttributeError)"
    and IHr: "\<And>g s1 e. group v a s = Inr (g, s1) \<Longrightarrow>
       (build_items rest (query @ [g]) (upd s1) = Inl e) =
       (first_fault (encounters_items rest cc') = Some e)"
  shows "((case group v a s of Inl e \<Rightarrow> Inl e | Inr (g, s1) \<Rightarrow> build_items rest (query @ [g]) (upd s1)) = Inl e) =
     (first_fault ((if is_dict v then [] else [(str ''$and'', v, None)]) @ encounters v (current_column s) @ encounters_items rest cc') = Some e)"
proof (cases "group v a s")
  case (Inl e')
  with IHg[of e'] have f: "if is_dict v then first_fault (encounters v (current_column s)) = Some e'
        else e' = AttributeError" by simp
  show ?thesis
  proof (cases "is_dict v")
    case True
    with f Inl show ?thesis by (simp add: first_fault_append)
  next
    case False
    with f Inl show ?thesis by (auto simp add: fault_of_logical)
  qed
next
  case (Inr x)
  obtain g s1 where x: "x = (g, s1)" by (cases x)
  have d: "is_dict v"
  proof (rule ccontr)
    assume "\<not> is_dict v"
    with IHg[of AttributeError] Inr show False by simp
  qed
  have n: "first_fault (encounters v (current_column s)) = None"
  proof (cases "first_fault (encounters v (current_column s))")
    case (Some e')
    with IHg[of e'] d Inr show ?thesis by simp
  qed simp
  from IHr[of g s1 e] Inr x d n show ?thesis by (simp add: first_fault_append)
qed

lemma build_fault:
  "(build w s = Inl e) =
     (if is_dict w then first_fault (encounters w (current_column s)) = Some e
      else e = AttributeError)"
  "(build_items kvs query s = Inl e) =
     (first_fault (encounters_items kvs (current_column s)) = Some e)"
  "(group v a s = Inl e) =
     (if is_dict v then first_fault (encounters v (current_column s)) = Some e
      else e = AttributeError)"
proof (induction w s and kvs query s and v a s arbitrary: e and e and e
    rule: build_build_items_group.induct)
  case (1 w s)
  then show ?case by (cases w) auto
next
  case (2 query s)
  then show ?case by simp
next
  case (3 k v rest query s)
  let ?cc = "current_column s"
  show ?case
  proof (cases "k = str ''$and''")
    case True
    have A: "\<And>e. (group v (str ''AND'') s = Inl e) =
       (if is_dict v then first_fault (encounters v ?cc) = Some e else e = AttributeError)"
      by (rule "3.IH"(1)[OF True])
    have B: "\<And>g s1 e. group v (str ''AND'') s = Inr (g, s1) \<Longrightarrow>
       (build_items rest (query @ [g]) ((\<lambda>s. s) s1) = Inl e) =
       (first_fault (encounters_items rest ?cc) = Some e)"
    proof -
      fix g s1 e assume g: "group v (str ''AND'') s = Inr (g, s1)"
      from "3.IH"(2)[OF True g refl, of e] build_keeps_column(3)[OF g]
      show "(build_items rest (query @ [g]) ((\<lambda>s. s) s1) = Inl e) =
       (first_fault (encounters_items rest ?cc) = Some e)" by simp
    qed
    from group_step[where upd="\<lambda>s. s" and e=e, OF A B] True
    have "(build_items ((k, v) # rest) query s = Inl e) =
      (first_fault ((if is_dict v then [] else [(str ''$and'', v, None)]) @ encounters v ?cc @ encounters_items rest ?cc) = Some e)"
      by simp
    with True show ?thesis
      by (simp add: fault_of_logical first_fault_append encounters_not_dict)
  next
    case nand: False
    show ?thesis
    proof (cases "k = str ''$or''")
      case True
      have A: "\<And>e. (group v (str ''OR'') s = Inl e) =
         (if is_dict v then first_fault (encounters v ?cc) = Some e else e = AttributeError)"
        by (rule "3.IH"(3)[OF nand True])
      have B: "\<And>g s1 e. group v (str ''OR'') s = Inr (g, s1) \<Longrightarrow>
         (build_items rest (query @ [g]) ((\<lambda>s. s) s1) = Inl e) =
         (first_fault (encounters_items rest ?cc) = Some e)"
      proof -
        fix g s1 e assume g: "group v (str ''OR'') s = Inr (g, s1)"
        from "3.IH"(4)[OF nand True g refl, of e] build_keeps_column(3)[OF g]
        show "(build_items rest (query @ [g]) ((\<lambda>s. s) s1) = Inl e) =
         (first_fault (encounters_items rest ?cc) = Some e)" by simp
      qed
      from group_step[where upd="\<lambda>s. s" and e=e, OF A B] True nand
      have "(build_items ((k, v) # rest) query s = Inl e) =
        (first_fault ((if is_dict v then [] else [(str ''$and'', v, None)]) @ encounters v ?cc @ encounters_items rest ?cc) = Some e)"
        by simp
      with True nand show ?thesis
        by (simp add: fault_of_logical first_fault_append encounters_not_dict)
    next
      case nor: False
      show ?thesis
      proof (cases "k \<in> fst ` set operators")
        case True
        show ?thesis
        proof (cases "op k v s")
          case (Inl e')
          with True have "?cc = None" "e' = AssertionError" by (simp_all add: op_Inl_iff)
          with Inl nand nor True show ?thesis by (auto simp add: fault_of_operator)
        next
          case (Inr x)
          obtain c s1 where x: "x = (c, s1)" by (cases x)
          from Inr x have cc: "current_column s1 = ?cc" "?cc \<noteq> None" by (auto simp: op_Inr_iff)
          from "3.IH"(5)[OF nand nor True Inr[unfolded x] refl, of e] cc Inr x nand nor True
          show ?thesis by (auto simp add: fault_of_operator)
        qed
      next
        case nop: False
        show ?thesis
        proof (cases "is_dict v")
          case True
          show ?thesis
          proof (cases "?cc \<noteq> None")
            case cc: True
            with nand nor nop True show ?thesis by (auto simp add: fault_of_plain)
          next
            case cc: False
            have A: "\<And>e. (group v (str ''AND'') (s\<lparr>current_column := Some k\<rparr>) = Inl e) =
                (if is_dict v then first_fault (encounters v (current_column (s\<lparr>current_column := Some k\<rparr>))) = Some e
                 else e = AttributeError)"
              by (rule "3.IH"(6)[OF nand nor nop True cc])
            have B: "\<And>g s1 e. group v (str ''AND'') (s\<lparr>current_column := Some k\<rparr>) = Inr (g, s1) \<Longrightarrow>
                (build_items rest (query @ [g]) ((\<lambda>s'. s'\<lparr>current_column := current_column s\<rparr>) s1) = Inl e) =
                (first_fault (encounters_items rest ?cc) = Some e)"
            proof -
              fix g s1 e assume g: "group v (str ''AND'') (s\<lparr>current_column := Some k\<rparr>) = Inr (g, s1)"
              from "3.IH"(7)[OF nand nor nop True cc g refl, of e]
              show "(build_items rest (query @ [g]) ((\<lambda>s'. s'\<lparr>current_column := current_column s\<rparr>) s1) = Inl e) =
                (first_fault (encounters_items rest ?cc) = Some e)" by simp
            qed
            from group_step[where upd="\<lambda>s'. s'\<lparr>current_column := current_column s\<rparr>" and e=e, OF A B]
              nand nor nop True cc
            have "(build_items ((k, v) # rest) query s = Inl e) =
              (first_fault ((if is_dict v then [] else [(str ''$and'', v, None)]) @
                 encounters v (current_column (s\<lparr>current_column := Some k\<rparr>)) @ encounters_items rest ?cc) = Some e)"
              by simp
            with nand nor nop True cc show ?thesis
              by (simp add: fault_of_plain)
          qed
        next
          case False
          from "3.IH"(8)[OF nand nor nop False, of e] nand nor nop False
          show ?thesis by (simp add: fault_of_plain)
        qed
      qed
    qed
  qed
next
  case (4 v action s)
  from "4.IH"[of e] show ?case by (auto simp: bind_Inl_iff)
qed

subsection \<open>Placeholders and their parameters\<close>

lemma count_ph_append:
  "ys = [] \<or> hd ys \<noteq> 115 \<Longrightarrow> count_ph (xs @ ys) = count_ph xs + count_ph ys"
proof (induction xs rule: count_ph.induct)
  case (1 a b cs)
  then show ?case by simp
next
  case (2 a)
  then show ?case by (cases ys) auto
next
  case 3
  then show ?case by simp
qed

lemma fill_plain:
  "count_ph xs = 0 \<Longrightarrow> ys = [] \<or> hd ys \<noteq> 115 \<Longrightarrow> fill (xs @ ys) ps = xs @ fill ys ps"
proof (induction xs rule: count_ph.induct)
  case (1 a b cs)
  then show ?case by (auto split: if_splits)
next
  case (2 a)
  then show ?case by (cases ys) auto
next
  case 3
  then show ?case by simp
qed

lemma alignedD:
  "aligned r f ps t \<Longrightarrow> ys = [] \<or> hd ys \<noteq> 115 \<Longrightarrow>
   fill (f @ ys) (map r ps @ qs) = t @ fill ys qs \<and> count_ph (f @ ys) = length ps + count_ph ys"
  unfolding aligned_def by blast

lemma aligned_list_ConsE:
  assumes "aligned_list r (f # fs) ps ts"
  obtains p1 p2 t ts' where "ps = p1 @ p2" "ts = t # ts'" "aligned r f p1 t"
    "aligned_list r fs p2 ts'"
  using assms by auto

lemma aligned_placeholder: "aligned r (str ''%s'') [v] (r v)"
  by (simp add: aligned_def str_def)

lemma aligned_prefix:
  assumes "count_ph xs = 0" and "aligned r f ps t" and "f \<noteq> []" and "hd f \<noteq> 115"
  shows "aligned r (xs @ f) ps (xs @ t)"
  unfolding aligned_def
proof (intro allI impI)
  fix ys qs assume ys: "ys = [] \<or> hd ys \<noteq> (115::nat)"
  from assms(3,4) have h: "f @ ys = [] \<or> hd (f @ ys) \<noteq> 115" by simp
  from alignedD[OF assms(2) ys, of qs] have a: "fill (f @ ys) (map r ps @ qs) = t @ fill ys qs"
    "count_ph (f @ ys) = length ps + count_ph ys" by simp_all
  from fill_plain[OF assms(1) h] count_ph_append[OF h, of xs] a assms(1)
  show "fill ((xs @ f) @ ys) (map r ps @ qs) = (xs @ t) @ fill ys qs \<and>
        count_ph ((xs @ f) @ ys) = length ps + count_ph ys" by simp
qed

lemma aligned_equality:
  assumes "count_ph k = 0"
  shows "aligned r (k @ str ''=%s'') [v] (k @ str ''='' @ r v)"
proof -
  have 1: "count_ph (k @ str ''='') = 0"
    using count_ph_append[of "str ''=''" k] assms by (simp add: str_def)
  from aligned_prefix[OF 1 aligned_placeholder[of r v]]
  show ?thesis by (simp add: str_def)
qed

lemma operator_symbol_plain:
  "map_of operators k = Some sql_op \<Longrightarrow> sql_op \<noteq> [] \<and> hd sql_op \<noteq> 115 \<and> count_ph (sql_op @ str '' '') = 0"
  by (auto simp: operators_def str_def split: if_splits)

lemma aligned_comparison:
  assumes "count_ph col = 0" and "map_of operators k = Some sql_op"
  shows "aligned r (str [CHR 0x22] @ col @ str [CHR 0x22] @ str '' '' @ sql_op @ str '' %s'') [v]
           (str ''\"'' @ col @ str ''\" '' @ sql_op @ str '' '' @ r v)"
proof -
  from operator_symbol_plain[OF assms(2)] have s: "sql_op \<noteq> []" "hd sql_op \<noteq> 115"
    "count_ph (sql_op @ str '' '') = 0" by simp_all
  have 1: "count_ph (str ''\" '' @ sql_op @ str '' '') = 0"
    using s count_ph_append[of "sql_op @ str '' ''" "str ''\" ''"] by (simp add: str_def)
  have 2: "count_ph (col @ str ''\" '' @ sql_op @ str '' '') = 0"
    using 1 assms(1) count_ph_append[of "str ''\" '' @ sql_op @ str '' ''" col] by (simp add: str_def)
  have 3: "count_ph (str ''\"'' @ col @ str ''\" '' @ sql_op @ str '' '') = 0"
    using 2 count_ph_append[of "col @ str ''\" '' @ sql_op @ str '' ''" "str ''\"''"]
    by (cases col) (simp_all add: str_def)
  from aligned_prefix[OF 3 aligned_placeholder[of r v]]
  show ?thesis by (simp add: str_def)
qed

lemma separator_plain:
  assumes "sep = str '' AND '' \<or> sep = str '' OR ''"
  shows "fill (sep @ ys) qs = sep @ fill ys qs" "count_ph (sep @ ys) = count_ph ys"
    "sep \<noteq> []" "hd sep \<noteq> 115"
  using assms by (cases ys; auto simp: str_def)+

lemma aligned_empty: "aligned r [] [] []"
  by (simp add: aligned_def)

lemma aligned_join:
  "sep = str '' AND '' \<or> sep = str '' OR '' \<Longrightarrow> aligned_list r fs ps ts \<Longrightarrow>
   aligned r (join sep fs) ps (join sep ts)"
proof (induction sep fs arbitrary: ps ts rule: join.induct)
  case (1 sep)
  then show ?case by (simp add: aligned_empty)
next
  case (2 sep x)
  then show ?case by auto
next
  case (3 sep x y ys)
  note sep = "3.prems"(1)
  from "3.prems"(2) obtain p1 p2 t ts' where h: "ps = p1 @ p2" "ts = t # ts'" "aligned r x p1 t"
    "aligned_list r (y # ys) p2 ts'" by (rule aligned_list_ConsE)
  from h(4) obtain t' ts'' where ts': "ts' = t' # ts''" by (rule aligned_list_ConsE)
  from "3.IH"[OF sep h(4)] have J: "aligned r (join sep (y # ys)) p2 (join sep ts')" .
  show ?case
    unfolding aligned_def
  proof (intro allI impI)
    fix zs qs assume zs: "zs = [] \<or> hd zs \<noteq> (115::nat)"
    from alignedD[OF J zs, of qs] have a:
      "fill (join sep (y # ys) @ zs) (map r p2 @ qs) = join sep ts' @ fill zs qs"
      "count_ph (join sep (y # ys) @ zs) = length p2 + count_ph zs" by simp_all
    have hd: "sep @ join sep (y # ys) @ zs = [] \<or> hd (sep @ join sep (y # ys) @ zs) \<noteq> 115"
      using separator_plain(3,4)[OF sep] by simp
    from alignedD[OF h(3) hd, of "map r p2 @ qs"] have b:
      "fill (x @ sep @ join sep (y # ys) @ zs) (map r p1 @ map r p2 @ qs) =
         t @ fill (sep @ join sep (y # ys) @ zs) (map r p2 @ qs)"
      "count_ph (x @ sep @ join sep (y # ys) @ zs) = length p1 + count_ph (sep @ join sep (y # ys) @ zs)"
      by simp_all
    from a b separator_plain(1,2)[OF sep] h(1,2) ts'
    show "fill (join sep (x # y # ys) @ zs) (map r ps @ qs) = join sep ts @ fill zs qs \<and>
          count_ph (join sep (x # y # ys) @ zs) = length ps + count_ph zs"
      by simp
  qed
qed

lemma separator_str:
  "str '' '' @ str ''AND'' @ str '' '' = str '' AND ''"
  "str '' '' @ str ''OR'' @ str '' '' = str '' OR ''"
  by (simp_all add: str_def)

lemma aligned_step:
  assumes "params s1 = params s @ ps1" and "aligned r g ps1 t"
    and "q = (query @ [g]) @ fs" and "params s' = params s1 @ ps2"
    and "aligned_list r fs ps2 ts"
  shows "\<exists>fs ps. q = query @ fs \<and> params s' = params s @ ps \<and> aligned_list r fs ps (t # ts)"
proof -
  from assms have "q = query @ (g # fs) \<and> params s' = params s @ (ps1 @ ps2) \<and>
     aligned_list r (g # fs) (ps1 @ ps2) (t # ts)"
    by auto
  then show ?thesis by blast
qed

lemma build_aligned:
  "build w s = Inr (fs, s') \<Longrightarrow>
   \<forall>t\<in>set (encounters w (current_column s)). count_ph (fst t) = 0 \<Longrightarrow>
   \<forall>c. current_column s = Some c \<longrightarrow> count_ph c = 0 \<Longrightarrow>
   \<exists>ps. params s' = params s @ ps \<and> aligned_list r fs ps (render r w (current_column s))"
  "build_items kvs query s = Inr (q, s') \<Longrightarrow>
   \<forall>t\<in>set (encounters_items kvs (current_column s)). count_ph (fst t) = 0 \<Longrightarrow>
   \<forall>c. current_column s = Some c \<longrightarrow> count_ph c = 0 \<Longrightarrow>
   \<exists>fs ps. q = query @ fs \<and> params s' = params s @ ps \<and>
     aligned_list r fs ps (render_items r kvs (current_column s))"
  "group v a s = Inr (g, s') \<Longrightarrow> a = str ''AND'' \<or> a = str ''OR'' \<Longrightarrow>
   \<forall>t\<in>set (encounters v (current_column s)). count_ph (fst t) = 0 \<Longrightarrow>
   \<forall>c. current_column s = Some c \<longrightarrow> count_ph c = 0 \<Longrightarrow>
   \<exists>ps. params s' = params s @ ps \<and>
     aligned r g ps (join (str '' '' @ a @ str '' '') (render r v (current_column s)))"
proof (induction w s and kvs query s and v a s arbitrary: fs s' and q s' and g s'
    rule: build_build_items_group.induct)
  case (1 w s)
  show ?case
  proof (cases w)
    case (JDict kvs)
    with "1.prems" have run: "build_items kvs [] s = Inr (fs, s')"
      and keys: "\<forall>t\<in>set (encounters_items kvs (current_column s)). count_ph (fst t) = 0"
      by simp_all
    from "1.IH"[OF JDict run keys "1.prems"(3)] JDict show ?thesis by auto
  qed (use "1.prems" in simp_all)
next
  case (2 query s)
  then show ?case by simp
next
  case (3 k v rest query s)
  let ?cc = "current_column s"
  note run = "3.prems"(1) and keys = "3.prems"(2) and col = "3.prems"(3)
  from keys have kk: "count_ph k = 0"
    and krest: "\<forall>t\<in>set (encounters_items rest ?cc). count_ph (fst t) = 0"
    by simp_all
  show ?case
  proof (cases "k = str ''$and''")
    case True
    with keys have kv: "\<forall>t\<in>set (encounters v ?cc). count_ph (fst t) = 0" by simp
    from run True obtain g s1 where g: "group v (str ''AND'') s = Inr (g, s1)"
      and r: "build_items rest (query @ [g]) s1 = Inr (q, s')"
      by (auto simp: bind_Inr_iff)
    have cc: "current_column s1 = ?cc" by (rule build_keeps_column(3)[OF g])
    from "3.IH"(1)[OF True g _ kv col] obtain ps1 where
      1: "params s1 = params s @ ps1"
         "aligned r g ps1 (join (str '' AND '') (render r v ?cc))"
      by (auto simp: separator_str)
    from "3.IH"(2)[OF True g refl r] krest col cc obtain fs ps2 where
      2: "q = (query @ [g]) @ fs" "params s' = params s1 @ ps2"
         "aligned_list r fs ps2 (render_items r rest ?cc)"
      by auto
    from aligned_step[OF 1 2] True show ?thesis by simp
  next
    case nand: False
    show ?thesis
    proof (cases "k = str ''$or''")
      case True
      with keys have kv: "\<forall>t\<in>set (encounters v ?cc). count_ph (fst t) = 0" by simp
      from run nand True obtain g s1 where g: "group v (str ''OR'') s = Inr (g, s1)"
        and r: "build_items rest (query @ [g]) s1 = Inr (q, s')"
        by (auto simp: bind_Inr_iff)
      have cc: "current_column s1 = ?cc" by (rule build_keeps_column(3)[OF g])
      from "3.IH"(3)[OF nand True g _ kv col] obtain ps1 where
        1: "params s1 = params s @ ps1"
           "aligned r g ps1 (join (str '' OR '') (render r v ?cc))"
        by (auto simp: separator_str)
      from "3.IH"(4)[OF nand True g refl r] krest col cc obtain fs ps2 where
        2: "q = (query @ [g]) @ fs" "params s' = params s1 @ ps2"
           "aligned_list r fs ps2 (render_items r rest ?cc)"
        by auto
      from aligned_step[OF 1 2] nand True show ?thesis by simp
    next
      case nor: False
      show ?thesis
      proof (cases "k \<in> fst ` set operators")
        case True
        from run nand nor True obtain c s1 where c: "op k v s = Inr (c, s1)"
          and r: "build_items rest (query @ [c]) s1 = Inr (q, s')"
          by (auto simp: bind_Inr_iff)
        from c obtain col sql_op where o: "?cc = Some col" "map_of operators k = Some sql_op"
          "c = str [CHR 0x22] @ col @ str [CHR 0x22] @ str '' '' @ sql_op @ str '' %s''"
          "s1 = s\<lparr>params := params s @ [v]\<rparr>"
          by (auto simp: op_Inr_iff)
        from o(1) "3.prems"(3) have "count_ph col = 0" by simp
        from aligned_comparison[OF this o(2), of r v] o have
          1: "params s1 = params s @ [v]"
             "aligned r c [v] (str ''\"'' @ col @ str ''\" '' @ sql_op @ str '' '' @ r v)"
          by simp_all
        from o have cc: "current_column s1 = ?cc" by simp
        from "3.IH"(5)[OF nand nor True c refl r] krest "3.prems"(3) cc obtain fs ps2 where
          2: "q = (query @ [c]) @ fs" "params s' = params s1 @ ps2"
             "aligned_list r fs ps2 (render_items r rest ?cc)"
          by auto
        from aligned_step[OF 1 2] nand nor True o show ?thesis by simp
      next
        case nop: False
        show ?thesis
        proof (cases "is_dict v")
          case True
          from run nand nor nop True have ccn: "\<not> ?cc \<noteq> None"
            by (auto split: if_splits)
          from keys nand nor nop True have kv:
            "\<forall>t\<in>set (encounters v (current_column (s\<lparr>current_column := Some k\<rparr>))). count_ph (fst t) = 0"
            by simp
          from kk have col': "\<forall>c. current_column (s\<lparr>current_column := Some k\<rparr>) = Some c \<longrightarrow> count_ph c = 0"
            by simp
          from run nand nor nop True ccn obtain g s1 where
            g: "group v (str ''AND'') (s\<lparr>current_column := Some k\<rparr>) = Inr (g, s1)"
            and r: "build_items rest (query @ [g]) (s1\<lparr>current_column := ?cc\<rparr>) = Inr (q, s')"
            by (auto simp: bind_Inr_iff)
          from "3.IH"(6)[OF nand nor nop True ccn g _ kv col'] obtain ps1 where
            1: "params (s1\<lparr>current_column := ?cc\<rparr>) = params s @ ps1"
               "aligned r g ps1 (join (str '' AND '') (render r v (Some k)))"
            by (auto simp: separator_str)
          from "3.IH"(7)[OF nand nor nop True ccn g refl r] krest col obtain fs ps2 where
            2: "q = (query @ [g]) @ fs" "params s' = params (s1\<lparr>current_column := ?cc\<rparr>) @ ps2"
               "aligned_list r fs ps2 (render_items r rest ?cc)"
            by auto
          from aligned_step[OF 1 2] nand nor nop True show ?thesis by simp
        next
          case False
          from run nand nor nop False have
            r: "build_items rest (query @ [k @ str ''=%s'']) (s\<lparr>params := params s @ [v]\<rparr>)
                  = Inr (q, s')"
            by simp
          have 1: "params (s\<lparr>params := params s @ [v]\<rparr>) = params s @ [v]"
            "aligned r (k @ str ''=%s'') [v] (k @ str ''='' @ r v)"
            using aligned_equality[OF kk] by simp_all
          from "3.IH"(8)[OF nand nor nop False r] krest col obtain fs ps2 where
            2: "q = (query @ [k @ str ''=%s'']) @ fs"
               "params s' = params (s\<lparr>params := params s @ [v]\<rparr>) @ ps2"
               "aligned_list r fs ps2 (render_items r rest ?cc)"
            by auto
          from aligned_step[OF 1 2] nand nor nop False show ?thesis by simp
        qed
      qed
    qed
  qed
next
  case (4 v action s)
  from "4.prems"(1) obtain q where b: "build v s = Inr (q, s')"
    and g: "g = join (str '' '' @ action @ str '' '') q"
    by (auto simp: bind_Inr_iff)
  from "4.IH"[OF b "4.prems"(3,4)] obtain ps where
    ps: "params s' = params s @ ps" "aligned_list r q ps (render r v (current_column s))"
    by blast
  from "4.prems"(2) have sep: "str '' '' @ action @ str '' '' = str '' AND '' \<or>
     str '' '' @ action @ str '' '' = str '' OR ''"
    by (auto simp: separator_str)
  from aligned_join[OF sep ps(2)] ps(1) g show ?case by blast
qed

subsection \<open>Logical groups inside an object\<close>

lemma build_append:
  "build (JDict (xs @ ys)) s =
     (case build (JDict xs) s of
        Inl e \<Rightarrow> Inl e
      | Inr (f1, s1) \<Rightarrow>
          (case build (JDict ys) s1 of
             Inl e \<Rightarrow> Inl e
           | Inr (f2, s2) \<Rightarrow> Inr (f1 @ f2, s2)))"
proof (induction xs arbitrary: s)
  case Nil
  show ?case by (simp split: sum.splits)
next
  case (Cons kv xs)
  have "build (JDict ((kv # xs) @ ys)) s =
     (case build (JDict [kv]) s of
        Inl e \<Rightarrow> Inl e
      | Inr (f, s1) \<Rightarrow>
          (case build (JDict (xs @ ys)) s1 of
             Inl e \<Rightarrow> Inl e
           | Inr (fs, s2) \<Rightarrow> Inr (f @ fs, s2)))"
    using build_Cons[of kv "xs @ ys" s] by simp
  also have "\<dots> =
     (case build (JDict (kv # xs)) s of
        Inl e \<Rightarrow> Inl e
      | Inr (f1, s1) \<Rightarrow>
          (case build (JDict ys) s1 of
             Inl e \<Rightarrow> Inl e
           | Inr (f2, s2) \<Rightarrow> Inr (f1 @ f2, s2)))"
    unfolding build_Cons[of kv xs s] Cons.IH
    by (simp split: sum.splits prod.splits del: build.simps)
  finally show ?case .
qed

lemma build_single_and:
  "build (JDict [(str ''$and'', v)]) s =
     (case build v s of
        Inl e \<Rightarrow> Inl e
      | Inr (frs, s') \<Rightarrow> Inr ([join (str '' AND '') frs], s'))"
  by (simp add: separator_str split: sum.splits)

lemma build_single_or:
  "build (JDict [(str ''$or'', v)]) s =
     (case build v s of
        Inl e \<Rightarrow> Inl e
      | Inr (frs, s') \<Rightarrow> Inr ([join (str '' OR '') frs], s'))"
  by (simp add: separator_str str_def split: sum.splits)

lemma build_not_dict: "\<not> is_dict v \<Longrightarrow> build v s = Inl AttributeError"
  by (cases v) simp_all

lemma build_group_anywhere:
  assumes "(k, sep) = (str ''$and'', str '' AND '') \<or> (k, sep) = (str ''$or'', str '' OR '')"
  shows "build (JDict (pre @ (k, v) # post)) s =
     (case build (JDict pre) s of
        Inl e \<Rightarrow> Inl e
      | Inr (f1, s1) \<Rightarrow>
          (case build v s1 of
             Inl e \<Rightarrow> Inl e
           | Inr (frs, s2) \<Rightarrow>
               (case build (JDict post) s2 of
                  Inl e \<Rightarrow> Inl e
                | Inr (f3, s3) \<Rightarrow> Inr (f1 @ join sep frs # f3, s3))))"
proof -
  have single: "build (JDict [(k, v)]) s1 =
     (case build v s1 of Inl e \<Rightarrow> Inl e | Inr (frs, s') \<Rightarrow> Inr ([join sep frs], s'))" for s1
    using assms build_single_and[of v s1] build_single_or[of v s1] by auto
  show ?thesis
    unfolding build_append[of pre "(k, v) # post" s] build_Cons[of "(k, v)" post] single
    by (simp split: sum.splits prod.splits del: build.simps)
qed

lemma build_query_dict:
  "kvs \<noteq> [] \<Longrightarrow> build_query (JDict kvs) =
     (case build (JDict kvs) init of
        Inl e \<Rightarrow> Inl e
      | Inr (frs, s') \<Rightarrow> Inr (join (str '' AND '') frs, params s'))"
  by (simp add: build_query_def separator_str split: sum.splits del: build.simps)

subsection \<open>The identifier check on a string\<close>

lemma check_chars_iff:
  "check_chars U s = (\<forall>c\<in>set s. isalnum U c \<or> c \<in> set (str ''_$''))"
  by (induction s) auto

lemma check_valid_sql_ident_str:
  "check_valid_sql_ident U (JStr s) =
     Inr (s \<noteq> [] \<and> isalnum U (hd s) \<and> (\<forall>c\<in>set s. isalnum U c \<or> c \<in> set (str ''_$'')))"
  by (cases s) (auto simp: check_valid_sql_ident_def check_chars_iff simp del: check_chars.simps)

section \<open>The claims\<close>

text \<open>
  C1, as amended. A \<^verbatim>\<open>$and\<close>/\<^verbatim>\<open>$or\<close> key takes an object, not a sequence. The
  filter \<^verbatim>\<open>{"$and": {"a": 1, "b": 2}}\<close> compiles to \<^verbatim>\<open>a=%s AND b=%s\<close> with the parameters
  1, 2 in that order. In general, wherever a \<^verbatim>\<open>$and\<close> or \<^verbatim>\<open>$or\<close> key with an object as
  value stands in a filter object (after any keys \<open>pre\<close>, before any keys \<open>post\<close>, on any
  builder, hence at any depth), the keys before it are compiled, then the object of the
  key on the builder they leave, then the keys after it, and the fragment of the key is
  the fragments of its object joined with \<^verbatim>\<open>" AND "\<close> or \<^verbatim>\<open>" OR "\<close>. When the value of the
  key is not an object (a sequence, say), the compilation fails there with an
  AttributeError. \<^verbatim>\<open>build_query\<close> on a non-empty object joins the fragments of its keys
  with \<^verbatim>\<open>" AND "\<close>; the entries of an object are compiled one after the other, and every
  entry gives one fragment.
\<close>

theorem logical_group_of_object:
  "build_query (JDict [(str ''$and'', JDict [(str ''a'', JInt 1), (str ''b'', JInt 2)])])
     = Inr (str ''a=%s AND b=%s'', [JInt 1, JInt 2]) \<and>
   ((k, sep) = (str ''$and'', str '' AND '') \<or> (k, sep) = (str ''$or'', str '' OR '') \<longrightarrow>
    build (JDict (pre @ (k, JDict obj) # post)) s =
      (case build (JDict pre) s of
         Inl e \<Rightarrow> Inl e
       | Inr (f1, s1) \<Rightarrow>
           (case build (JDict obj) s1 of
              Inl e \<Rightarrow> Inl e
            | Inr (frs, s2) \<Rightarrow>
                (case build (JDict post) s2 of
                   Inl e \<Rightarrow> Inl e
                 | Inr (f3, s3) \<Rightarrow> Inr (f1 @ join sep frs # f3, s3))))) \<and>
   (k = str ''$and'' \<or> k = str ''$or'' \<longrightarrow> \<not> is_dict v \<longrightarrow>
    build (JDict (pre @ (k, v) # post)) s =
      (case build (JDict pre) s of Inl e \<Rightarrow> Inl e | Inr x \<Rightarrow> Inl AttributeError)) \<and>
   (kvs \<noteq> [] \<longrightarrow>
    build_query (JDict kvs) =
      (case build (JDict kvs) init of
         Inl e \<Rightarrow> Inl e
       | Inr (frs, s') \<Rightarrow> Inr (join (str '' AND '') frs, params s'))) \<and>
   build (JDict (kv # kvs)) s =
     (case build (JDict [kv]) s of
        Inl e \<Rightarrow> Inl e
      | Inr (f, s1) \<Rightarrow>
          (case build (JDict kvs) s1 of
             Inl e \<Rightarrow> Inl e
           | Inr (fs, s2) \<Rightarrow> Inr (f @ fs, s2))) \<and>
   (build (JDict kvs) s = Inr (frs, s') \<longrightarrow> length frs = length kvs)"
proof -
  have ex: "build_query (JDict [(str ''$and'', JDict [(str ''a'', JInt 1), (str ''b'', JInt 2)])])
     = Inr (str ''a=%s AND b=%s'', [JInt 1, JInt 2])"
    by (simp add: qb_defs)
  have grp: "(k, sep) = (str ''$and'', str '' AND '') \<or> (k, sep) = (str ''$or'', str '' OR '') \<longrightarrow>
    build (JDict (pre @ (k, JDict obj) # post)) s =
      (case build (JDict pre) s of
         Inl e \<Rightarrow> Inl e
       | Inr (f1, s1) \<Rightarrow>
           (case build (JDict obj) s1 of
              Inl e \<Rightarrow> Inl e
            | Inr (frs, s2) \<Rightarrow>
                (case build (JDict post) s2 of
                   Inl e \<Rightarrow> Inl e
                 | Inr (f3, s3) \<Rightarrow> Inr (f1 @ join sep frs # f3, s3))))"
    using build_group_anywhere[of k sep pre "JDict obj" post s] by blast
  have seq: "k = str ''$and'' \<or> k = str ''$or'' \<longrightarrow> \<not> is_dict v \<longrightarrow>
    build (JDict (pre @ (k, v) # post)) s =
      (case build (JDict pre) s of Inl e \<Rightarrow> Inl e | Inr x \<Rightarrow> Inl AttributeError)"
  proof (intro impI)
    assume k: "k = str ''$and'' \<or> k = str ''$or''" and v: "\<not> is_dict v"
    from k obtain sep' where
      "(k, sep') = (str ''$and'', str '' AND '') \<or> (k, sep') = (str ''$or'', str '' OR '')"
      by auto
    from build_group_anywhere[OF this, of pre v post s] build_not_dict[OF v]
    show "build (JDict (pre @ (k, v) # post)) s =
      (case build (JDict pre) s of Inl e \<Rightarrow> Inl e | Inr x \<Rightarrow> Inl AttributeError)"
      by (simp split: sum.splits prod.splits del: build.simps)
  qed
  have top: "kvs \<noteq> [] \<longrightarrow>
    build_query (JDict kvs) =
      (case build (JDict kvs) init of
         Inl e \<Rightarrow> Inl e
       | Inr (frs, s') \<Rightarrow> Inr (join (str '' AND '') frs, params s'))"
    using build_query_dict[of kvs] by blast
  have l: "build (JDict kvs) s = Inr (frs, s') \<longrightarrow> length frs = length kvs"
    using build_items_length[of kvs "[]" s frs s'] by simp
  from ex grp seq top build_Cons[of kv kvs s] l show ?thesis by blast
qed

text \<open>
  The theorem at \<^verbatim>\<open>{"x": 1, "$or": {"a": 1, "b": 2}}\<close>, where the group is met on a
  builder that already holds a parameter, and at a \<^verbatim>\<open>$and\<close> with a list as value.
\<close>

theorem logical_group_of_object_witness:
  "build (JDict ([(str ''x'', JInt 1)] @ (str ''$or'', JDict [(str ''a'', JInt 1), (str ''b'', JInt 2)]) # [])) init
     = Inr ([str ''x=%s'', str ''a=%s OR b=%s''],
            \<lparr>params = [JInt 1, JInt 1, JInt 2], current_column = None\<rparr>) \<and>
   build (JDict ([] @ (str ''$and'', JList [JDict [(str ''a'', JInt 1)]]) # [])) init
     = Inl AttributeError \<and>
   build_query (JDict [(str ''x'', JInt 1), (str ''$or'', JDict [(str ''a'', JInt 1), (str ''b'', JInt 2)])])
     = Inr (str ''x=%s AND a=%s OR b=%s'', [JInt 1, JInt 1, JInt 2]) \<and>
   length [str ''x=%s'', str ''a=%s OR b=%s'']
     = length [(str ''x'', JInt 1), (str ''$or'', JDict [(str ''a'', JInt 1), (str ''b'', JInt 2)])]"
  using logical_group_of_object [where k = "str ''$or''" and sep = "str '' OR ''"
      and pre = "[(str ''x'', JInt 1)]" and obj = "[(str ''a'', JInt 1), (str ''b'', JInt 2)]"
      and post = "[]" and s = init
      and kvs = "[(str ''x'', JInt 1), (str ''$or'', JDict [(str ''a'', JInt 1), (str ''b'', JInt 2)])]"
      and frs = "[str ''x=%s'', str ''a=%s OR b=%s'']"
      and s' = "\<lparr>params = [JInt 1, JInt 1, JInt 2], current_column = None\<rparr>"]
  by (simp add: qb_defs)

text \<open>
  C1 as stated fails: on \<^verbatim>\<open>{"$and": [{"a": 1}, {"b": 2}]}\<close> the call of \<^verbatim>\<open>build\<close> on
  the list raises an AttributeError (a list has no \<^verbatim>\<open>items\<close>).
\<close>

theorem logical_group_of_sequence_fails:
  "build_query (JDict [(str ''$and'', JList [JDict [(str ''a'', JInt 1)], JDict [(str ''b'', JInt 2)]])])
     = Inl AttributeError"
  by (simp add: qb_defs)

text \<open>
  C2, as amended. For every filter on which \<^verbatim>\<open>build_query\<close> returns normally and in
  which no key met by the traversal contains \<^verbatim>\<open>%s\<close>: the text has as many placeholders
  as there are parameters, and replacing the i-th placeholder by (any rendering \<open>r\<close> of)
  the i-th parameter gives the clauses of the filter, each with its own value in the
  place of its placeholder.
\<close>

theorem placeholder_alignment:
  assumes "build_query F = Inr (q, ps)"
    and "\<forall>t\<in>set (encounters F None). count_ph (fst t) = 0"
  shows "count_ph q = length ps \<and>
         fill q (map r ps) = join (str '' AND '') (render r F None)"
proof (cases "F = JNull \<or> py_len F = Inr 0")
  case True
  then have "render r F None = []" by (cases F) auto
  moreover from True assms(1) have "q = []" "ps = []"
    by (auto simp: build_query_def split: if_splits)
  ultimately show ?thesis by simp
next
  case False
  with assms(1) obtain s where g: "group F (str ''AND'') init = Inr (q, s)" and ps: "ps = params s"
    by (auto simp: build_query_def bind_Inr_iff split: if_splits)
  from build_aligned(3)[OF g _ _ _, of r] assms(2) obtain ps' where
    "params s = params init @ ps'"
    "aligned r q ps' (join (str '' AND '') (render r F None))"
    by (auto simp: init_def separator_str)
  with ps have "aligned r q ps (join (str '' AND '') (render r F None))"
    by (simp add: init_def)
  from alignedD[OF this, of "[]" "[]"] show ?thesis by simp
qed

text \<open>
  The theorem at \<^verbatim>\<open>{"age": {"$gte": 18, "$lt": 65}, "b": 2}\<close>, the parameters written as
  decimal numbers.
\<close>

theorem placeholder_alignment_witness:
  "count_ph (str ''\"age\" >= %s AND \"age\" < %s AND b=%s'') = length [JInt 18, JInt 65, JInt 2] \<and>
   fill (str ''\"age\" >= %s AND \"age\" < %s AND b=%s'')
     (map (\<lambda>v. if v = JInt 18 then str ''18'' else if v = JInt 65 then str ''65'' else str ''2'')
        [JInt 18, JInt 65, JInt 2])
     = str ''\"age\" >= 18 AND \"age\" < 65 AND b=2''"
proof -
  let ?F = "JDict [(str ''age'', JDict [(str ''$gte'', JInt 18), (str ''$lt'', JInt 65)]), (str ''b'', JInt 2)]"
  have run: "build_query ?F = Inr (str ''\"age\" >= %s AND \"age\" < %s AND b=%s'', [JInt 18, JInt 65, JInt 2])"
    by (simp add: qb_defs)
  have keys: "\<forall>t\<in>set (encounters ?F None). count_ph (fst t) = 0"
    by (simp add: str_def operators_def)
  from placeholder_alignment [OF run keys,
      of "\<lambda>v. if v = JInt 18 then str ''18'' else if v = JInt 65 then str ''65'' else str ''2''"]
  show ?thesis by (simp add: str_def operators_def)
qed

text \<open>
  C2 as stated fails: a key is copied into the text as it is, so the filter
  \<^verbatim>\<open>{"%s": 1}\<close> compiles to \<^verbatim>\<open>%s=%s\<close>, two placeholders for one parameter.
\<close>

theorem placeholder_in_key:
  "build_query (JDict [(str ''%s'', JInt 1)]) = Inr (str ''%s=%s'', [JInt 1]) \<and>
   count_ph (str ''%s=%s'') \<noteq> length [JInt 1]"
  by (simp add: qb_defs)

text \<open>
  C3, as amended. \<^verbatim>\<open>check_valid_sql_ident\<close> returns true for \<^verbatim>\<open>"valid_name$1"\<close> and for
  \<^verbatim>\<open>"1abc"\<close> (a leading digit is alphanumeric), and false for \<^verbatim>\<open>"bad name"\<close> and for
  the empty string.
\<close>

theorem check_valid_sql_ident_examples:
  "check_valid_sql_ident U (JStr (str ''valid_name$1'')) = Inr True \<and>
   check_valid_sql_ident U (JStr (str ''1abc'')) = Inr True \<and>
   check_valid_sql_ident U (JStr (str ''bad name'')) = Inr False \<and>
   check_valid_sql_ident U (JStr (str '''')) = Inr False"
  by (simp add: ident_defs)

text \<open>
  C3 as stated fails: it wants false for \<^verbatim>\<open>"1abc"\<close>, and the function returns true
  there.
\<close>

theorem check_valid_sql_ident_leading_digit:
  "check_valid_sql_ident (\<lambda>c. False) (JStr (str ''1abc'')) \<noteq> Inr False"
  by (simp add: ident_defs)

text \<open>
  C4. The claim wants every identifier with a diacritic rejected, and so does the comment
  in the function. On the four characters c, a, f and U+00E9 (e with an acute accent)
  the function returns
  true, because \<^verbatim>\<open>str.isalnum\<close> accepts every Unicode letter.
\<close>

theorem check_valid_sql_ident_accepts_diacritic:
  "check_valid_sql_ident U (JStr (str ''caf'' @ [0xE9])) = Inr True"
  by (simp add: ident_defs)

text \<open>
  C5, as amended. \<^verbatim>\<open>build_query\<close> fails with an AssertionError exactly when the
  traversal, before any other failure, meets a comparison operator while no column is
  active, or a key that is neither \<^verbatim>\<open>$and\<close>/\<^verbatim>\<open>$or\<close> nor a comparison operator and has an
  object as value while a column is active. The only other failure of a traversal is a
  \<^verbatim>\<open>$and\<close>/\<^verbatim>\<open>$or\<close> key whose value is not an object, an AttributeError. The filter
  \<^verbatim>\<open>{"a": {"b": {"c": 1}}}\<close> fails with an AssertionError.
\<close>

theorem assertion_fault_exactly:
  "(build_query F = Inl AssertionError) =
     (\<exists>xs t ys. encounters F None = xs @ t # ys \<and>
        (\<forall>x\<in>set xs. \<not> op_without_column x \<and> \<not> nested_column x \<and> \<not> group_not_object x) \<and>
        (op_without_column t \<or> nested_column t)) \<and>
   build_query (JDict [(str ''a'', JDict [(str ''b'', JDict [(str ''c'', JInt 1)])])])
     = Inl AssertionError"
proof -
  have ex: "build_query (JDict [(str ''a'', JDict [(str ''b'', JDict [(str ''c'', JInt 1)])])])
     = Inl AssertionError"
    by (simp add: qb_defs)
  have split: "(first_fault (encounters F None) = Some AssertionError) =
     (\<exists>xs t ys. encounters F None = xs @ t # ys \<and>
        (\<forall>x\<in>set xs. \<not> op_without_column x \<and> \<not> nested_column x \<and> \<not> group_not_object x) \<and>
        (op_without_column t \<or> nested_column t))"
    by (simp only: first_fault_split fault_of_assertion fault_of_None)
  have "(build_query F = Inl AssertionError) = (first_fault (encounters F None) = Some AssertionError)"
  proof (cases "F = JNull \<or> py_len F = Inr 0 \<or> py_len F = Inl TypeError")
    case True
    then have "encounters F None = []" by (cases F) auto
    with True show ?thesis by (auto simp: build_query_def)
  next
    case False
    then obtain n where n: "py_len F = Inr n" "n \<noteq> 0" "F \<noteq> JNull"
      by (cases F) auto
    then have "(build_query F = Inl AssertionError) = (group F (str ''AND'') init = Inl AssertionError)"
      by (auto simp: build_query_def bind_Inl_iff)
    also have "\<dots> = (first_fault (encounters F None) = Some AssertionError)"
      unfolding build_fault(3)
      by (simp add: init_def encounters_not_dict del: encounters.simps)
    finally show ?thesis .
  qed
  with split ex show ?thesis by simp
qed

text \<open>
  The theorem at \<^verbatim>\<open>{"a": 1, "$gt": 2}\<close>: the second key is a comparison operator met
  with no column active.
\<close>

theorem assertion_fault_exactly_witness:
  "build_query (JDict [(str ''a'', JInt 1), (str ''$gt'', JInt 2)]) = Inl AssertionError \<and>
   (\<exists>xs t ys. encounters (JDict [(str ''a'', JInt 1), (str ''$gt'', JInt 2)]) None = xs @ t # ys \<and>
        (\<forall>x\<in>set xs. \<not> op_without_column x \<and> \<not> nested_column x \<and> \<not> group_not_object x) \<and>
        (op_without_column t \<or> nested_column t))"
proof -
  have run: "build_query (JDict [(str ''a'', JInt 1), (str ''$gt'', JInt 2)]) = Inl AssertionError"
    by (simp add: qb_defs)
  from run assertion_fault_exactly [of "JDict [(str ''a'', JInt 1), (str ''$gt'', JInt 2)]"]
  show ?thesis by blast
qed

text \<open>
  C5 as stated fails: in \<^verbatim>\<open>{"age": {"$or": {"$lt": 18, "$gt": 65}}}\<close> the key \<^verbatim>\<open>$or\<close> has an
  object as value and is met while the column \<^verbatim>\<open>age\<close> is active, and the compilation
  returns normally.
\<close>

theorem object_under_column_compiles:
  "build_query (JDict [(str ''age'', JDict [(str ''$or'', JDict [(str ''$lt'', JInt 18), (str ''$gt'', JInt 65)])])])
     = Inr (str ''\"age\" < %s OR \"age\" > %s'', [JInt 18, JInt 65]) \<and>
   (str ''$or'', JDict [(str ''$lt'', JInt 18), (str ''$gt'', JInt 65)], Some (str ''age''))
     \<in> set (encounters (JDict [(str ''age'', JDict [(str ''$or'', JDict [(str ''$lt'', JInt 18), (str ''$gt'', JInt 65)])])]) None) \<and>
   is_dict (JDict [(str ''$lt'', JInt 18), (str ''$gt'', JInt 65)])"
  by (simp add: qb_defs)

text \<open>
  C6. The filter \<^verbatim>\<open>{"age": {"$gte": 18, "$lt": 65}}\<close> compiles to the clause
  \<^verbatim>\<open>"age" >= %s AND "age" < %s\<close> with the parameters 18, 65 in that order.
\<close>

theorem build_query_comparison_example:
  "build_query (JDict [(str ''age'', JDict [(str ''$gte'', JInt 18), (str ''$lt'', JInt 65)])])
     = Inr (str ''\"age\" >= %s AND \"age\" < %s'', [JInt 18, JInt 65])"
  by (simp add: qb_defs)

text \<open>
  C7. \<^verbatim>\<open>build_query\<close> returns the empty text and no parameters on \<^verbatim>\<open>{}\<close> and on
  \<^verbatim>\<open>None\<close>. For a request with a table whose \<^verbatim>\<open>where\<close> is absent, \<^verbatim>\<open>null\<close> or
  \<^verbatim>\<open>{}\<close>, the statements of \<^verbatim>\<open>delete\<close>, \<^verbatim>\<open>select\<close> and \<^verbatim>\<open>update\<close> are
  \<^verbatim>\<open>DELETE FROM t  RETURNING *\<close>, \<^verbatim>\<open>SELECT cols FROM t\<close> and
  \<^verbatim>\<open>UPDATE t SET assignments RETURNING *\<close>: nothing stands where the WHERE clause would.
\<close>

theorem empty_filter_no_where:
  "build_query (JDict []) = Inr ([], []) \<and> build_query JNull = Inr ([], []) \<and>
   (map_of req (str ''table'') = Some t \<longrightarrow>
    map_of req (str ''where'') \<in> {None, Some JNull, Some (JDict [])} \<longrightarrow>
      delete_sql F (JDict req) = Inr (str ''DELETE FROM '' @ format F t @ str ''  RETURNING *'', []) \<and>
      select_sql U F (JDict req) =
        (case select_columns U F (case map_of req (str ''columns'') of None \<Rightarrow> JNull | Some c \<Rightarrow> c) of
           Inl e \<Rightarrow> Inl e
         | Inr cols \<Rightarrow> Inr (str ''SELECT '' @ cols @ str '' FROM '' @ format F t, [])) \<and>
      (\<forall>vs. map_of req (str ''values'') = Some (JDict vs) \<longrightarrow>
         update_sql F (JDict req) =
           Inr (str ''UPDATE '' @ format F t @ str '' SET '' @
                join (str '','') (map (\<lambda>x. str ''\"'' @ fst x @ str ''\" = %s'') (sort_key fst vs)) @
                str '' RETURNING *'',
                map snd (sort_key fst vs))))"
proof -
  have bq: "build_query (JDict []) = Inr ([], [])" "build_query JNull = Inr ([], [])"
    by (simp_all add: build_query_def)
  {
    assume t: "map_of req (str ''table'') = Some t"
      and w: "map_of req (str ''where'') \<in> {None, Some JNull, Some (JDict [])}"
    from w have w1: "\<exists>w. get_default (JDict req) (str ''where'') JNull = Inr w \<and> build_query w = Inr ([], [])"
      using bq by (auto split: option.splits)
    from w have w2: "\<exists>w. get_default (JDict req) (str ''where'') (JDict []) = Inr w \<and> build_query w = Inr ([], [])"
      using bq by (auto split: option.splits)
    have d: "delete_sql F (JDict req) = Inr (str ''DELETE FROM '' @ format F t @ str ''  RETURNING *'', [])"
      using w1 t by (auto simp: delete_sql_def str_def)
    have s: "select_sql U F (JDict req) =
        (case select_columns U F (case map_of req (str ''columns'') of None \<Rightarrow> JNull | Some c \<Rightarrow> c) of
           Inl e \<Rightarrow> Inl e
         | Inr cols \<Rightarrow> Inr (str ''SELECT '' @ cols @ str '' FROM '' @ format F t, []))"
      using w1 t by (auto simp: select_sql_def split: option.splits sum.splits)
    have u: "\<forall>vs. map_of req (str ''values'') = Some (JDict vs) \<longrightarrow>
         update_sql F (JDict req) =
           Inr (str ''UPDATE '' @ format F t @ str '' SET '' @
                join (str '','') (map (\<lambda>x. str ''\"'' @ fst x @ str ''\" = %s'') (sort_key fst vs)) @
                str '' RETURNING *'',
                map snd (sort_key fst vs))"
      using w2 t by (auto simp: update_sql_def Let_def str_def)
    note d s u
  }
  with bq show ?thesis by blast
qed

text \<open>
  The theorem at the request \<^verbatim>\<open>{"table": "t", "where": {}, "values": {"b": 2, "a": 1}}\<close>.
\<close>

theorem empty_filter_no_where_witness:
  "delete_sql (\<lambda>v. []) (JDict [(str ''table'', JStr (str ''t'')), (str ''where'', JDict []),
       (str ''values'', JDict [(str ''b'', JInt 2), (str ''a'', JInt 1)])])
     = Inr (str ''DELETE FROM t  RETURNING *'', []) \<and>
   select_sql (\<lambda>c. False) (\<lambda>v. []) (JDict [(str ''table'', JStr (str ''t'')), (str ''where'', JDict []),
       (str ''values'', JDict [(str ''b'', JInt 2), (str ''a'', JInt 1)])])
     = Inr (str ''SELECT * FROM t'', []) \<and>
   update_sql (\<lambda>v. []) (JDict [(str ''table'', JStr (str ''t'')), (str ''where'', JDict []),
       (str ''values'', JDict [(str ''b'', JInt 2), (str ''a'', JInt 1)])])
     = Inr (str ''UPDATE t SET \"a\" = %s,\"b\" = %s RETURNING *'', [JInt 1, JInt 2])"
  using empty_filter_no_where [where F = "\<lambda>v. []" and U = "\<lambda>c. False" and t = "JStr (str ''t'')"
      and req = "[(str ''table'', JStr (str ''t'')), (str ''where'', JDict []),
                  (str ''values'', JDict [(str ''b'', JInt 2), (str ''a'', JInt 1)])]"]
  by (simp add: str_def select_columns_def)

text \<open>
  C8. For a non-empty sequence of rows, the InsertBuilder ends with: the column names of
  the first row's sorted keys, double-quoted and comma-joined, whatever the later rows
  are; one parenthesized tuple per row, with as many placeholders as that row has keys;
  as parameters the values of each row in the order of that row's sorted keys, one row
  after the other, hence as many parameters as the rows have keys in total. The rows
  \<^verbatim>\<open>[{"a":1,"b":2}, {"a":3,"b":4}]\<close> give the columns \<^verbatim>\<open>"a","b"\<close>, the values clause
  \<^verbatim>\<open>(%s,%s),(%s,%s)\<close> and the parameters 1, 2, 3, 4.
\<close>

theorem insert_builder_rows:
  "(\<exists>b. add_all (map JDict (r # rs)) init_ins = Inr b \<and>
        names b =
          Inr (join (str '','') (map (\<lambda>k. str ''\"'' @ k @ str ''\"'') (sort (map fst r)))) \<and>
        value_strs b =
          map (\<lambda>row. str ''('' @ join (str '','') (replicate (length row) (str ''%s'')) @
                      str '')'') (r # rs) \<and>
        params_ins b = concat (map (\<lambda>row. map snd (sort_key fst row)) (r # rs)) \<and>
        length (params_ins b) = sum_list (map length (r # rs))) \<and>
   insert_sql F (JDict [(str ''table'', JStr (str ''t'')),
      (str ''values'', JList [JDict [(str ''a'', JInt 1), (str ''b'', JInt 2)],
                              JDict [(str ''a'', JInt 3), (str ''b'', JInt 4)]])])
     = Inr (str ''INSERT INTO t (\"a\",\"b\") VALUES (%s,%s),(%s,%s) RETURNING *'',
            [JInt 1, JInt 2, JInt 3, JInt 4])"
proof -
  have m: "map (\<lambda>x. str ''\"'' @ fst x @ str ''\"'') (sort_key fst r) =
           map (\<lambda>k. str ''\"'' @ k @ str ''\"'') (sort (map fst r))"
    by (simp add: map_fst_sort_key [symmetric] o_def)
  have general: "\<exists>b. add_all (map JDict (r # rs)) init_ins = Inr b \<and>
        names b =
          Inr (join (str '','') (map (\<lambda>k. str ''\"'' @ k @ str ''\"'') (sort (map fst r)))) \<and>
        value_strs b =
          map (\<lambda>row. str ''('' @ join (str '','') (replicate (length row) (str ''%s'')) @
                      str '')'') (r # rs) \<and>
        params_ins b = concat (map (\<lambda>row. map snd (sort_key fst row)) (r # rs)) \<and>
        length (params_ins b) = sum_list (map length (r # rs))"
    by (simp add: add_dict add_all_dicts init_ins_def names_def m length_concat o_def)
  have example: "insert_sql F (JDict [(str ''table'', JStr (str ''t'')),
      (str ''values'', JList [JDict [(str ''a'', JInt 1), (str ''b'', JInt 2)],
                              JDict [(str ''a'', JInt 3), (str ''b'', JInt 4)]])])
     = Inr (str ''INSERT INTO t (\"a\",\"b\") VALUES (%s,%s),(%s,%s) RETURNING *'',
            [JInt 1, JInt 2, JInt 3, JInt 4])"
    by (simp add: insert_sql_def add_def names_def values_ins_def init_ins_def str_def)
  from general example show ?thesis by blast
qed

text \<open>
  C9. \<^verbatim>\<open>check_valid_sql_ident\<close> raises on no input: for every value it returns a
  boolean. It returns false on every value that is not a string, on the empty string,
  on every string whose first character is not alphanumeric and on every string with a
  character that is neither alphanumeric nor \<^verbatim>\<open>_\<close> nor \<^verbatim>\<open>$\<close>; on every other string it
  returns true.
\<close>

theorem check_valid_sql_ident_total:
  "(\<exists>b. check_valid_sql_ident U v = Inr b) \<and>
   ((\<forall>s. v \<noteq> JStr s) \<longrightarrow> check_valid_sql_ident U v = Inr False) \<and>
   check_valid_sql_ident U (JStr []) = Inr False \<and>
   (\<not> isalnum U c \<longrightarrow> check_valid_sql_ident U (JStr (c # cs)) = Inr False) \<and>
   (d \<in> set s \<longrightarrow> \<not> isalnum U d \<longrightarrow> d \<notin> set (str ''_$'') \<longrightarrow>
      check_valid_sql_ident U (JStr s) = Inr False) \<and>
   (s \<noteq> [] \<longrightarrow> isalnum U (hd s) \<longrightarrow> (\<forall>c\<in>set s. isalnum U c \<or> c \<in> set (str ''_$'')) \<longrightarrow>
      check_valid_sql_ident U (JStr s) = Inr True)"
proof -
  have total: "\<exists>b. check_valid_sql_ident U v = Inr b"
    by (cases v) (auto simp: check_valid_sql_ident_str, auto simp: check_valid_sql_ident_def)
  have nonstr: "(\<forall>s. v \<noteq> JStr s) \<longrightarrow> check_valid_sql_ident U v = Inr False"
    by (cases v) (auto simp: check_valid_sql_ident_def)
  have empty: "check_valid_sql_ident U (JStr []) = Inr False"
    by (simp add: check_valid_sql_ident_str)
  have first: "\<not> isalnum U c \<longrightarrow> check_valid_sql_ident U (JStr (c # cs)) = Inr False"
    by (simp add: check_valid_sql_ident_str)
  have char: "d \<in> set s \<longrightarrow> \<not> isalnum U d \<longrightarrow> d \<notin> set (str ''_$'') \<longrightarrow>
      check_valid_sql_ident U (JStr s) = Inr False"
    unfolding check_valid_sql_ident_str by blast
  have ok: "s \<noteq> [] \<longrightarrow> isalnum U (hd s) \<longrightarrow> (\<forall>c\<in>set s. isalnum U c \<or> c \<in> set (str ''_$'')) \<longrightarrow>
      check_valid_sql_ident U (JStr s) = Inr True"
    unfolding check_valid_sql_ident_str by blast
  from total nonstr empty first char ok show ?thesis by blast
qed

text \<open>
  The theorem at the number 5, at \<^verbatim>\<open>"_a"\<close> (first character), at \<^verbatim>\<open>"a;b"\<close> (a
  semicolon) and at \<^verbatim>\<open>"a_b$"\<close>.
\<close>

theorem check_valid_sql_ident_total_witness:
  "check_valid_sql_ident (\<lambda>c. False) (JInt 5) = Inr False \<and>
   check_valid_sql_ident (\<lambda>c. False) (JStr (str ''_a'')) = Inr False \<and>
   check_valid_sql_ident (\<lambda>c. False) (JStr (str ''a;b'')) = Inr False \<and>
   check_valid_sql_ident (\<lambda>c. False) (JStr (str ''a_b$'')) = Inr True"
  using check_valid_sql_ident_total [where U = "\<lambda>c. False" and v = "JInt 5" and c = 95
      and cs = "str ''a''" and d = 59 and s = "str ''a;b''"]
    check_valid_sql_ident_total [where U = "\<lambda>c. False" and s = "str ''a_b$''"]
  by (simp add: isalnum_def ascii_alnum_def str_def)

text \<open>
  C10. Whenever \<^verbatim>\<open>build\<close> returns normally, \<^verbatim>\<open>current_column\<close> is after the call what
  it was before the call.
\<close>

theorem build_restores_current_column:
  "build w s = Inr (q, s') \<Longrightarrow> current_column s' = current_column s"
  by (rule build_keeps_column(1))

theorem build_restores_current_column_witness:
  "build (JDict [(str ''age'', JDict [(str ''$gte'', JInt 18)]), (str ''b'', JInt 2)]) init
     = Inr ([str ''\"age\" >= %s'', str ''b=%s''],
            \<lparr>params = [JInt 18, JInt 2], current_column = None\<rparr>) \<and>
   current_column \<lparr>params = [JInt 18, JInt 2], current_column = None\<rparr> = current_column init"
proof -
  have run: "build (JDict [(str ''age'', JDict [(str ''$gte'', JInt 18)]), (str ''b'', JInt 2)]) init
     = Inr ([str ''\"age\" >= %s'', str ''b=%s''],
            \<lparr>params = [JInt 18, JInt 2], current_column = None\<rparr>)"
    by (simp add: qb_defs)
  from run build_restores_current_column [OF run] show ?thesis by simp
qed

end
